theory Spec2Isabelle
  imports Main "HOL-Library.Char_ord" "HOL-Library.List_Lexorder" "HOL-Library.Word"
    "HOL-Library.Multiset"
begin

section \<open>Lc0 match downloader: a shallow embedding of \<^verbatim>\<open>lc0_match_downloader.py\<close>\<close>

text \<open>
  The theory follows the source file class by class: the Python string operations the
  code relies on, \<^verbatim>\<open>Config\<close>, \<^verbatim>\<open>MatchDatabase\<close>, \<^verbatim>\<open>MatchDownloader\<close> and
  \<^verbatim>\<open>PGNProcessor\<close>. A Python \<^verbatim>\<open>str\<close> is a \<open>string\<close> whose characters are the code
  points below 256; \<^verbatim>\<open>bytes\<close> is a list of 8-bit words. Exceptions are values of the
  type \<open>exn\<close>; a function whose exceptions are all caught inside it is a plain total
  function, one that lets an exception escape returns a sum.
\<close>

subsection \<open>Python string operations\<close>

type_synonym bytes = "8 word list"

datatype exn = IndexError | ValueError | TypeError | KeyError

definition nl :: char where
  "nl = CHR 0x0A"

definition cr :: char where
  "cr = CHR 0x0D"

text \<open>\<^verbatim>\<open>str.isspace\<close> on one character: the whitespace code points below 256.\<close>

definition isspace :: "char \<Rightarrow> bool" where
  "isspace c =
     (let n = (of_char c :: nat)
      in (9 \<le> n \<and> n \<le> 13) \<or> (28 \<le> n \<and> n \<le> 32) \<or> n = 133 \<or> n = 160)"

text \<open>\<^verbatim>\<open>s.split()\<close>: the maximal runs of characters that are not whitespace.\<close>

fun split_ws :: "string \<Rightarrow> string \<Rightarrow> string list" where
  "split_ws cur [] = (if cur = [] then [] else [cur])"
| "split_ws cur (c # cs) =
     (if isspace c then (if cur = [] then split_ws [] cs else cur # split_ws [] cs)
      else split_ws (cur @ [c]) cs)"

definition py_split :: "string \<Rightarrow> string list" where
  "py_split s = split_ws [] s"

text \<open>\<^verbatim>\<open>s.strip()\<close>.\<close>

definition strip :: "string \<Rightarrow> string" where
  "strip s = rev (dropWhile isspace (rev (dropWhile isspace s)))"

text \<open>\<^verbatim>\<open>s.startswith(p)\<close>, \<^verbatim>\<open>s.endswith(p)\<close> and \<^verbatim>\<open>p in s\<close>.\<close>

definition startswith :: "string \<Rightarrow> string \<Rightarrow> bool" where
  "startswith s p = (take (length p) s = p)"

definition endswith :: "string \<Rightarrow> string \<Rightarrow> bool" where
  "endswith s p = (length p \<le> length s \<and> drop (length s - length p) s = p)"

fun contains :: "string \<Rightarrow> string \<Rightarrow> bool" where
  "contains [] p = (p = [])"
| "contains (c # cs) p = (startswith (c # cs) p \<or> contains cs p)"

text \<open>\<^verbatim>\<open>s.split(sep)\<close> for a one-character separator, and \<^verbatim>\<open>sep.join(xs)\<close>.\<close>

fun split_on :: "char \<Rightarrow> string \<Rightarrow> string list" where
  "split_on sep [] = [[]]"
| "split_on sep (c # cs) =
     (if c = sep then [] # split_on sep cs
      else (case split_on sep cs of [] \<Rightarrow> [[c]] | l # ls \<Rightarrow> (c # l) # ls))"

fun join_on :: "char \<Rightarrow> string list \<Rightarrow> string" where
  "join_on sep [] = []"
| "join_on sep [l] = l"
| "join_on sep (l # l' # ls) = l @ sep # join_on sep (l' # ls)"

text \<open>
  Text-mode reading (\<^verbatim>\<open>Path.read_text\<close>) translates \<^verbatim>\<open>\r\n\<close> and a lone \<^verbatim>\<open>\r\<close>
  to \<^verbatim>\<open>\n\<close>.
\<close>

fun universal_newlines :: "string \<Rightarrow> string" where
  "universal_newlines [] = []"
| "universal_newlines [c] = [if c = cr then nl else c]"
| "universal_newlines (c # c' # cs) =
     (if c = cr \<and> c' = nl then nl # universal_newlines cs
      else if c = cr then nl # universal_newlines (c' # cs)
      else c # universal_newlines (c' # cs))"

text \<open>\<^verbatim>\<open>str(n)\<close> and the format \<^verbatim>\<open>{n:02d}\<close> for integers.\<close>

fun digits :: "nat \<Rightarrow> string" where
  "digits n =
     (if n < 10 then [''0123456789'' ! n]
      else digits (n div 10) @ [''0123456789'' ! (n mod 10)])"

declare digits.simps [simp del]

definition str_int :: "int \<Rightarrow> string" where
  "str_int i = (if i < 0 then CHR ''-'' # digits (nat (- i)) else digits (nat i))"

definition pad2 :: "nat \<Rightarrow> string" where
  "pad2 n = (if n < 10 then CHR ''0'' # digits n else digits n)"

subsection \<open>The standard library the code calls\<close>

text \<open>
  A \<^verbatim>\<open>datetime\<close> value. \<open>tzinfo\<close> is \<open>None\<close> for a naive value and the UTC offset in
  seconds for an aware one.
\<close>

record datetime =
  year :: nat
  month :: nat
  day :: nat
  hour :: nat
  minute :: nat
  second :: nat
  microsecond :: nat
  tzinfo :: "int option"

definition mk_date :: "nat \<Rightarrow> nat \<Rightarrow> nat \<Rightarrow> datetime" where
  "mk_date y m d =
     \<lparr>year = y, month = m, day = d, hour = 0, minute = 0, second = 0, microsecond = 0,
      tzinfo = None\<rparr>"

definition dt_key :: "datetime \<Rightarrow> nat list" where
  "dt_key d = [year d, month d, day d, hour d, minute d, second d, microsecond d]"

text \<open>
  \<^verbatim>\<open>date >= version_date\<close> against a naive threshold (every entry of \<^verbatim>\<open>VERSION_MAP\<close>
  is naive): Python orders two naive values field by field, and raises \<^verbatim>\<open>TypeError\<close>
  when it is asked to order an aware value against a naive one.
\<close>

definition ge_naive :: "datetime \<Rightarrow> datetime \<Rightarrow> exn + bool" where
  "ge_naive d threshold =
     (case tzinfo d of
        None \<Rightarrow> Inr (dt_key threshold \<le> dt_key d)
      | Some off \<Rightarrow> Inl TypeError)"

text \<open>
  What reading a \<^verbatim>\<open>.tar.gz\<close> gives: for each member its name and what
  \<^verbatim>\<open>tar.extractfile(member)\<close> followed by \<^verbatim>\<open>read()\<close> does: \<open>NotRegular\<close> when
  \<^verbatim>\<open>extractfile\<close> returns \<^verbatim>\<open>None\<close>, \<open>Content\<close> for the bytes read, \<open>ReadError\<close> when
  either call raises.
\<close>

datatype member_read = NotRegular | Content bytes | ReadError

record tar_member =
  name :: string
  extractfile :: member_read

text \<open>
  The library functions are parameters of the model:
  \<^item> \<open>fromisoformat\<close> is \<^verbatim>\<open>datetime.fromisoformat\<close>, \<open>None\<close> when it raises
    \<^verbatim>\<open>ValueError\<close>;
  \<^item> \<open>tar_open\<close> is \<^verbatim>\<open>gzip\<close> and \<^verbatim>\<open>tarfile.open\<close> followed by \<^verbatim>\<open>getmembers()\<close> on the
    bytes of a file, \<open>None\<close> when any of them raises;
  \<^item> \<open>decode_utf8\<close> is \<^verbatim>\<open>bytes.decode('utf-8', errors='ignore')\<close>, which never raises.
\<close>

record pylib =
  fromisoformat :: "string \<Rightarrow> datetime option"
  tar_open :: "bytes \<Rightarrow> tar_member list option"
  decode_utf8 :: "bytes \<Rightarrow> string"

text \<open>
  What \<^verbatim>\<open>session.get(url, timeout=60)\<close> and \<^verbatim>\<open>response.read()\<close> give for one URL: a
  response with its status and body, \<^verbatim>\<open>asyncio.TimeoutError\<close>, or any other exception.
\<close>

datatype http_result = Response int bytes | TimeoutError | ClientError

subsection \<open>\<^verbatim>\<open>Config\<close>\<close>

definition STORAGE_BASE_URL :: string where
  "STORAGE_BASE_URL = ''https://storage.lczero.org/files/match_pgns/''"

definition MAX_RETRIES :: int where
  "MAX_RETRIES = 3"

definition VERSION_MAP :: "(datetime \<times> string) list" where
  "VERSION_MAP =
     [(mk_date 2025 1 1, ''v0.32.0''),
      (mk_date 2024 6 1, ''v0.31.0''),
      (mk_date 2023 7 1, ''v0.30.0''),
      (mk_date 2023 1 1, ''v0.29.0''),
      (mk_date 2022 1 1, ''v0.28.0''),
      (mk_date 2021 1 1, ''v0.27.0''),
      (mk_date 2020 1 1, ''v0.26.0''),
      (mk_date 2019 1 1, ''v0.25.0''),
      (mk_date 2018 1 1, ''v0.24.0''),
      (mk_date 1970 1 1, ''v0.23.0'')]"

subsection \<open>\<^verbatim>\<open>MatchDatabase\<close>\<close>

text \<open>
  The two tables. \<open>matches\<close> holds its rows in rowid order, and the rowid of a row is
  its \<^verbatim>\<open>match_id\<close> (the column is \<^verbatim>\<open>INTEGER PRIMARY KEY\<close>); \<^verbatim>\<open>created_at\<close> and the
  log's \<^verbatim>\<open>timestamp\<close> are wall-clock defaults that no statement of the program reads, and
  the log's \<^verbatim>\<open>id\<close> is the position of the row.
\<close>

record match_row =
  match_id :: int
  date :: string
  pgn_filename :: string
  run_id :: "int option"
  download_status :: string
  download_attempts :: int
  processed :: bool

record log_row =
  log_match_id :: int
  log_status :: string
  log_message :: string

record database =
  matches :: "match_row list"
  download_log :: "log_row list"

definition init_db :: database where
  "init_db = \<lparr>matches = [], download_log = []\<rparr>"

text \<open>
  \<^verbatim>\<open>INSERT OR IGNORE INTO matches (match_id, date, pgn_filename)\<close>: a row whose
  \<^verbatim>\<open>match_id\<close> (the primary key) is already there is skipped, a new one gets the column
  defaults and its place by rowid. The ids are the integers the column stores.
\<close>

definition insert_or_ignore :: "database \<Rightarrow> int \<times> string \<times> string \<Rightarrow> database" where
  "insert_or_ignore d m =
     (case m of (i, dt, fn) \<Rightarrow>
        if i \<in> set (map match_id (matches d)) then d
        else d\<lparr>matches :=
               insort_key match_id
                 \<lparr>match_id = i, date = dt, pgn_filename = fn, run_id = None,
                   download_status = ''pending'', download_attempts = 0,
                   processed = False\<rparr>
                 (matches d)\<rparr>)"

definition insert_matches :: "database \<Rightarrow> (int \<times> string \<times> string) list \<Rightarrow> database" where
  "insert_matches d ms = foldl insert_or_ignore d ms"

text \<open>The dictionaries \<^verbatim>\<open>get_pending_downloads\<close> returns.\<close>

record match_data =
  d_match_id :: int
  d_date :: string
  d_pgn_filename :: string

definition to_match_data :: "match_row \<Rightarrow> match_data" where
  "to_match_data r = \<lparr>d_match_id = match_id r, d_date = date r, d_pgn_filename = pgn_filename r\<rparr>"

text \<open>
  \<^verbatim>\<open>WHERE download_status IN ('pending', 'retry') AND download_attempts < ?\<close> with
  \<^verbatim>\<open>Config.MAX_RETRIES\<close> as the parameter.
\<close>

definition is_pending :: "match_row \<Rightarrow> bool" where
  "is_pending r =
     ((download_status r = ''pending'' \<or> download_status r = ''retry'')
      \<and> download_attempts r < MAX_RETRIES)"

text \<open>
  SQLite answers the query through the index \<^verbatim>\<open>idx_download_status\<close>: it reads the rows of
  status \<^verbatim>\<open>pending\<close>, by rowid, then the rows of status \<^verbatim>\<open>retry\<close>, by rowid, and keeps
  those with attempts below the parameter.
\<close>

definition with_status :: "string \<Rightarrow> match_row list \<Rightarrow> match_row list" where
  "with_status st rows = filter (\<lambda>r. download_status r = st) rows"

definition pending_scan :: "database \<Rightarrow> match_row list" where
  "pending_scan d =
     filter (\<lambda>r. download_attempts r < MAX_RETRIES)
       (with_status ''pending'' (matches d) @ with_status ''retry'' (matches d))"

text \<open>
  \<^verbatim>\<open>ORDER BY date DESC\<close>: the text column is compared character by character. SQL leaves
  the order of rows with equal dates open; SQLite's sorter returns them in the order in
  which the scan has read them, and so does the model.
\<close>

fun insort_desc :: "match_row \<Rightarrow> match_row list \<Rightarrow> match_row list" where
  "insort_desc r [] = [r]"
| "insort_desc r (x # xs) = (if date x \<le> date r then r # x # xs else x # insort_desc r xs)"

definition order_by_date_desc :: "match_row list \<Rightarrow> match_row list" where
  "order_by_date_desc rs = foldr insort_desc rs []"

text \<open>
  \<^verbatim>\<open>if limit: query += f" LIMIT {limit}"\<close>: \<^verbatim>\<open>None\<close> and 0 add no clause, and SQLite reads
  a negative \<^verbatim>\<open>LIMIT\<close> as no limit.
\<close>

definition get_pending_downloads :: "database \<Rightarrow> int option \<Rightarrow> match_data list" where
  "get_pending_downloads d limit =
     (let rows = map to_match_data (order_by_date_desc (pending_scan d))
      in case limit of
           None \<Rightarrow> rows
         | Some n \<Rightarrow> if n = 0 then rows else if n < 0 then rows else take (nat n) rows)"

definition update_download_status :: "database \<Rightarrow> int \<Rightarrow> string \<Rightarrow> string \<Rightarrow> database" where
  "update_download_status d mid status message =
     \<lparr>matches =
        map (\<lambda>r. if match_id r = mid
                 then r\<lparr>download_status := status, download_attempts := download_attempts r + 1\<rparr>
                 else r)
            (matches d),
      download_log =
        download_log d @ [\<lparr>log_match_id = mid, log_status = status, log_message = message\<rparr>]\<rparr>"

definition mark_processed :: "database \<Rightarrow> int \<Rightarrow> database" where
  "mark_processed d mid =
     d\<lparr>matches := map (\<lambda>r. if match_id r = mid then r\<lparr>processed := True\<rparr> else r) (matches d)\<rparr>"

subsection \<open>The state of a run\<close>

text \<open>
  The database, the download directory (file name to bytes), the aggregate files under
  the processed directory (path to text) and the URLs requested so far, oldest first.
  The disk and the database are taken to work: a write or a commit that raises is not
  part of the model.
\<close>

record world =
  db :: database
  downloads :: "string \<rightharpoonup> bytes"
  aggregates :: "string \<rightharpoonup> string"
  requests :: "string list"

subsection \<open>\<^verbatim>\<open>MatchDownloader\<close>\<close>

definition extract_run_id :: "int \<Rightarrow> string \<Rightarrow> int" where
  "extract_run_id mid date_str = 1"

definition url_patterns :: "int \<Rightarrow> int \<Rightarrow> string list" where
  "url_patterns rid mid =
     [STORAGE_BASE_URL @ str_int rid @ ''/match_'' @ str_int mid @ ''.pgn.tar.gz'',
      STORAGE_BASE_URL @ str_int rid @ ''/match_'' @ str_int mid @ ''.pgn'',
      STORAGE_BASE_URL @ ''match_'' @ str_int mid @ ''.pgn.tar.gz'',
      STORAGE_BASE_URL @ ''match_'' @ str_int mid @ ''.pgn'']"

definition validate_pgn_content :: "pylib \<Rightarrow> bytes \<Rightarrow> string \<Rightarrow> bool" where
  "validate_pgn_content L content filename =
     (if endswith filename ''.tar.gz'' then
        (case tar_open L content of
           None \<Rightarrow> False
         | Some members \<Rightarrow> list_ex (\<lambda>m. endswith (name m) ''.pgn'') members)
      else if endswith filename ''.pgn'' then
        (let text = take 500 (decode_utf8 L content)
         in contains text ''[Event'' \<or> contains text ''[White'')
      else False)"

text \<open>
  The loop \<^verbatim>\<open>for url in url_patterns\<close> of \<^verbatim>\<open>download_match\<close>. The result is the new
  state and whether the loop returned \<^verbatim>\<open>True\<close>; \<open>False\<close> is falling out of the loop.
\<close>

fun try_urls ::
  "pylib \<Rightarrow> (string \<Rightarrow> http_result) \<Rightarrow> int \<Rightarrow> string \<Rightarrow> string list \<Rightarrow> world \<Rightarrow> world \<times> bool"
where
  "try_urls L get mid fname [] w = (w, False)"
| "try_urls L get mid fname (url # urls) w =
     (let w1 = w\<lparr>requests := requests w @ [url]\<rparr>
      in case get url of
           Response status content \<Rightarrow>
             if status = 200 then
               if \<not> validate_pgn_content L content fname then try_urls L get mid fname urls w1
               else
                 (w1\<lparr>downloads := (downloads w1)(fname \<mapsto> content),
                     db := update_download_status (db w1) mid ''success''
                             (''Downloaded from '' @ url)\<rparr>,
                  True)
             else if status = 404 then try_urls L get mid fname urls w1
             else try_urls L get mid fname urls w1
         | TimeoutError \<Rightarrow> try_urls L get mid fname urls w1
         | ClientError \<Rightarrow> try_urls L get mid fname urls w1)"

definition download_match ::
  "pylib \<Rightarrow> (string \<Rightarrow> http_result) \<Rightarrow> match_data \<Rightarrow> world \<Rightarrow> world \<times> bool"
where
  "download_match L get m w =
     (let mid = d_match_id m;
          fname = d_pgn_filename m;
          rid = extract_run_id mid (d_date m);
          (w1, ok) = try_urls L get mid fname (url_patterns rid mid) w
      in if ok then (w1, True)
         else (w1\<lparr>db := update_download_status (db w1) mid ''failed''
                           ''All URL patterns failed''\<rparr>,
               False))"

text \<open>
  \<^verbatim>\<open>download_all\<close> gathers one task per pending entry. A task touches only the row and
  the file of its own entry, so the tasks are run here one after the other.
\<close>

definition download_all ::
  "pylib \<Rightarrow> (string \<Rightarrow> http_result) \<Rightarrow> int option \<Rightarrow> world \<Rightarrow> world"
where
  "download_all L get limit w =
     foldl (\<lambda>w' m. fst (download_match L get m w')) w (get_pending_downloads (db w) limit)"

subsection \<open>\<^verbatim>\<open>PGNProcessor\<close>\<close>

text \<open>The body of the \<^verbatim>\<open>try\<close> of \<^verbatim>\<open>_get_lc0_version\<close>, and the function with its handler.\<close>

fun version_loop :: "datetime \<Rightarrow> (datetime \<times> string) list \<Rightarrow> exn + string" where
  "version_loop d [] = Inr ''v0.21.0''"
| "version_loop d ((version_date, version) # rest) =
     (case ge_naive d version_date of
        Inl e \<Rightarrow> Inl e
      | Inr b \<Rightarrow> if b then Inr version else version_loop d rest)"

definition lc0_version_try :: "pylib \<Rightarrow> string \<Rightarrow> exn + string" where
  "lc0_version_try L date_str =
     (case py_split date_str of
        [] \<Rightarrow> Inl IndexError
      | tok # rest \<Rightarrow>
          (case fromisoformat L tok of
             None \<Rightarrow> Inl ValueError
           | Some d \<Rightarrow> version_loop d VERSION_MAP))"

definition get_lc0_version :: "pylib \<Rightarrow> string \<Rightarrow> string" where
  "get_lc0_version L date_str =
     (case lc0_version_try L date_str of Inl e \<Rightarrow> ''v0.21.0'' | Inr v \<Rightarrow> v)"

definition date_header :: "string \<Rightarrow> string" where
  \<open>date_header date_only = ''[Date "'' @ date_only @ ''"]''\<close>

definition white_header :: "string \<Rightarrow> string" where
  \<open>white_header lc0_version = ''[White "Lc0 '' @ lc0_version @ ''"]''\<close>

definition black_header :: "string \<Rightarrow> string" where
  \<open>black_header lc0_version = ''[Black "Lc0 '' @ lc0_version @ ''"]''\<close>

definition event_header :: "int \<Rightarrow> string" where
  \<open>event_header mid = ''[Event "Lc0 match '' @ str_int mid @ ''"]''\<close>

text \<open>
  The loop \<^verbatim>\<open>for line in lines\<close> of \<^verbatim>\<open>_process_pgn_content\<close>: \<open>all_lines\<close> is the whole
  list (the date test reads its first 20 entries), \<open>in_headers\<close> the flag, and the result
  is what the loop appends to \<^verbatim>\<open>processed_lines\<close>.
\<close>

fun process_lines ::
  "string \<Rightarrow> string \<Rightarrow> int \<Rightarrow> string list \<Rightarrow> bool \<Rightarrow> string list \<Rightarrow> string list"
where
  "process_lines lc0_version date_only mid all_lines in_headers [] = []"
| "process_lines lc0_version date_only mid all_lines in_headers (line # rest) =
     (if in_headers \<and> startswith line ''[Event'' then
        line #
        (if \<not> list_ex (\<lambda>l. contains l ''[Date'') (take 20 all_lines)
         then [date_header date_only] else [])
        @ process_lines lc0_version date_only mid all_lines in_headers rest
      else if startswith line ''[White'' then
        white_header lc0_version
        # process_lines lc0_version date_only mid all_lines in_headers rest
      else if startswith line ''[Black'' then
        black_header lc0_version
        # process_lines lc0_version date_only mid all_lines in_headers rest
      else if startswith line ''[Event'' then
        event_header mid
        # process_lines lc0_version date_only mid all_lines in_headers rest
      else
        line #
        process_lines lc0_version date_only mid all_lines
          (if in_headers \<and> strip line = [] then False else in_headers) rest)"

text \<open>
  \<^verbatim>\<open>match_date.split()[0]\<close> stands outside any handler: a date with no token raises
  \<^verbatim>\<open>IndexError\<close> out of \<^verbatim>\<open>_process_pgn_content\<close>.
\<close>

definition process_pgn_content :: "pylib \<Rightarrow> string \<Rightarrow> string \<Rightarrow> int \<Rightarrow> exn + string" where
  "process_pgn_content L pgn_text match_date mid =
     (let lc0_version = get_lc0_version L match_date
      in case py_split match_date of
           [] \<Rightarrow> Inl IndexError
         | date_only # toks \<Rightarrow>
             (let lines = split_on nl pgn_text
              in Inr (join_on nl (process_lines lc0_version date_only mid lines True lines))))"

text \<open>
  \<^verbatim>\<open>_extract_from_archive\<close>: an exception anywhere ends the loop, is logged, and the texts
  collected so far are returned.
\<close>

fun extract_members :: "pylib \<Rightarrow> tar_member list \<Rightarrow> string list" where
  "extract_members L [] = []"
| "extract_members L (member # members) =
     (if endswith (name member) ''.pgn'' then
        (case extractfile member of
           NotRegular \<Rightarrow> extract_members L members
         | Content b \<Rightarrow> decode_utf8 L b # extract_members L members
         | ReadError \<Rightarrow> [])
      else extract_members L members)"

definition extract_from_archive :: "pylib \<Rightarrow> bytes \<Rightarrow> string list" where
  "extract_from_archive L archive =
     (case tar_open L archive of None \<Rightarrow> [] | Some members \<Rightarrow> extract_members L members)"

definition month_file :: "datetime \<Rightarrow> string" where
  "month_file d =
     ''processed/'' @ digits (year d) @ ''/'' @ pad2 (month d) @ ''/lc0_matches_''
     @ digits (year d) @ ''_'' @ pad2 (month d) @ ''.pgn''"

text \<open>
  \<^verbatim>\<open>_organize_by_month\<close>: the whole body is inside a handler that logs, so a date that
  does not parse leaves the files as they are.
\<close>

definition organize_by_month ::
  "pylib \<Rightarrow> string \<Rightarrow> string \<Rightarrow> (string \<rightharpoonup> string) \<Rightarrow> (string \<rightharpoonup> string)"
where
  "organize_by_month L date_str pgn_content files =
     (case py_split date_str of
        [] \<Rightarrow> files
      | tok # rest \<Rightarrow>
          (case fromisoformat L tok of
             None \<Rightarrow> files
           | Some d \<Rightarrow>
               files(month_file d \<mapsto>
                 (case files (month_file d) of None \<Rightarrow> [] | Some old \<Rightarrow> old)
                 @ pgn_content @ [nl, nl])))"

text \<open>
  The loop \<^verbatim>\<open>for pgn_text in pgn_contents\<close> of \<^verbatim>\<open>process_match\<close>: the files as the loop
  leaves them, and the exception that ended it, if any.
\<close>

fun process_units ::
  "pylib \<Rightarrow> string \<Rightarrow> int \<Rightarrow> string list \<Rightarrow> (string \<rightharpoonup> string)
   \<Rightarrow> (string \<rightharpoonup> string) \<times> exn option"
where
  "process_units L date_str mid [] files = (files, None)"
| "process_units L date_str mid (pgn_text # rest) files =
     (if strip pgn_text = [] then process_units L date_str mid rest files
      else
        (case process_pgn_content L pgn_text date_str mid of
           Inl e \<Rightarrow> (files, Some e)
         | Inr processed_pgn \<Rightarrow>
             process_units L date_str mid rest
               (organize_by_month L date_str processed_pgn files)))"

definition process_match :: "pylib \<Rightarrow> int \<Rightarrow> string \<Rightarrow> string \<Rightarrow> world \<Rightarrow> world" where
  "process_match L mid date_str fname w =
     (case downloads w fname of
        None \<Rightarrow> w
      | Some file \<Rightarrow>
          (let pgn_contents =
                 (if endswith fname ''.tar.gz'' then extract_from_archive L file
                  else [universal_newlines (decode_utf8 L file)]);
               (files, err) = process_units L date_str mid pgn_contents (aggregates w)
           in case err of
                Some e \<Rightarrow> w\<lparr>aggregates := files\<rparr>
              | None \<Rightarrow> w\<lparr>aggregates := files, db := mark_processed (db w) mid\<rparr>))"

text \<open>
  \<^verbatim>\<open>WHERE download_status = 'success' AND processed = 0 ORDER BY date\<close>, then
  \<^verbatim>\<open>process_match\<close> on each row of the answer. The scan reads the rows of status
  \<^verbatim>\<open>success\<close> by rowid, and rows of one date stay in that order: \<open>sort_key\<close> is stable.
\<close>

definition to_process :: "match_row \<Rightarrow> bool" where
  "to_process r = (download_status r = ''success'' \<and> \<not> processed r)"

definition process_all :: "pylib \<Rightarrow> world \<Rightarrow> world" where
  "process_all L w =
     foldl (\<lambda>w' r. process_match L (match_id r) (date r) (pgn_filename r) w') w
       (sort_key date (filter to_process (matches (db w))))"

subsection \<open>Store states and the operations that reach them\<close>

text \<open>\<^verbatim>\<open>match_id INTEGER PRIMARY KEY\<close>: no two rows of \<open>matches\<close> share an id.\<close>

definition valid_db :: "database \<Rightarrow> bool" where
  "valid_db d = distinct (map match_id (matches d))"

text \<open>The rows of the table stand in the order of their rowids.\<close>

definition rowid_order :: "database \<Rightarrow> bool" where
  "rowid_order d = sorted (map match_id (matches d))"

text \<open>
  The order of the answer of \<^verbatim>\<open>get_pending_downloads\<close>: a later date first; of two rows
  of one date a row of status \<^verbatim>\<open>pending\<close> before a row of status \<^verbatim>\<open>retry\<close>; and of two
  rows of one date and one status the one with the smaller id first.
\<close>

definition scan_order :: "match_row \<Rightarrow> match_row \<Rightarrow> bool" where
  "scan_order a b =
     (download_status a < download_status b
      \<or> (download_status a = download_status b \<and> match_id a < match_id b))"

definition date_desc_then_scan :: "match_row \<Rightarrow> match_row \<Rightarrow> bool" where
  "date_desc_then_scan a b =
     (date b < date a \<or> (date a = date b \<and> scan_order a b))"

text \<open>
  The store states reached from the empty store by \<^verbatim>\<open>insert_matches\<close>, by
  \<^verbatim>\<open>update_download_status\<close> on an entry that \<^verbatim>\<open>get_pending_downloads\<close> returns (any
  status, any message), and by \<^verbatim>\<open>mark_processed\<close> on a row that the query of
  \<^verbatim>\<open>process_all\<close> selects.
\<close>

inductive reachable :: "database \<Rightarrow> bool" where
  start: "reachable init_db"
| inserted: "reachable d \<Longrightarrow> reachable (insert_matches d ms)"
| attempted:
    "reachable d \<Longrightarrow> m \<in> set (get_pending_downloads d limit)
     \<Longrightarrow> reachable (update_download_status d (d_match_id m) status message)"
| marked:
    "reachable d \<Longrightarrow> r \<in> set (matches d) \<Longrightarrow> to_process r
     \<Longrightarrow> reachable (mark_processed d (match_id r))"

definition processed_inv :: "database \<Rightarrow> bool" where
  "processed_inv d =
     list_all (\<lambda>r. \<not> processed r \<or> download_status r = ''success'') (matches d)"

text \<open>An entry of \<^verbatim>\<open>VERSION_MAP\<close> whose threshold the date reaches.\<close>

definition reaches :: "datetime \<Rightarrow> datetime \<times> string \<Rightarrow> bool" where
  "reaches d entry = (dt_key (fst entry) \<le> dt_key d)"

subsection \<open>A concrete library and example data\<close>

text \<open>
  \<open>iso_parse\<close> reads the forms \<^verbatim>\<open>YYYY-MM-DD\<close>, \<^verbatim>\<open>YYYY-MM-DD?HH:MM:SS\<close> (any one
  separator character) and the latter followed by \<^verbatim>\<open>+HH:MM\<close> or \<^verbatim>\<open>-HH:MM\<close>, with the
  range checks of \<^verbatim>\<open>datetime\<close>. Every release of Python that has
  \<^verbatim>\<open>datetime.fromisoformat\<close> reads these forms so, and the examples use no other
  form. It stands for the library in the examples only: the theorems hold for any
  \<open>fromisoformat\<close>.
\<close>

definition digit_val :: "char \<Rightarrow> nat option" where
  "digit_val c =
     (let n = (of_char c :: nat) in if 48 \<le> n \<and> n \<le> 57 then Some (n - 48) else None)"

fun parse_nat_acc :: "nat \<Rightarrow> string \<Rightarrow> nat option" where
  "parse_nat_acc a [] = Some a"
| "parse_nat_acc a (c # cs) =
     (case digit_val c of None \<Rightarrow> None | Some v \<Rightarrow> parse_nat_acc (10 * a + v) cs)"

definition parse_nat :: "string \<Rightarrow> nat option" where
  "parse_nat s = (if s = [] then None else parse_nat_acc 0 s)"

definition is_leap :: "nat \<Rightarrow> bool" where
  "is_leap y = (y mod 4 = 0 \<and> (y mod 100 \<noteq> 0 \<or> y mod 400 = 0))"

definition days_in_month :: "nat \<Rightarrow> nat \<Rightarrow> nat" where
  "days_in_month y m =
     (if m = 2 then (if is_leap y then 29 else 28)
      else if m = 4 \<or> m = 6 \<or> m = 9 \<or> m = 11 then 30 else 31)"

definition parse_ymd :: "string \<Rightarrow> (nat \<times> nat \<times> nat) option" where
  "parse_ymd s =
     (if length s = 10 \<and> s ! 4 = CHR ''-'' \<and> s ! 7 = CHR ''-'' then
        (case (parse_nat (take 4 s), parse_nat (take 2 (drop 5 s)), parse_nat (drop 8 s)) of
           (Some y, Some m, Some d) \<Rightarrow>
             if 1 \<le> y \<and> 1 \<le> m \<and> m \<le> 12 \<and> 1 \<le> d \<and> d \<le> days_in_month y m
             then Some (y, m, d) else None
         | _ \<Rightarrow> None)
      else None)"

definition parse_hms :: "string \<Rightarrow> (nat \<times> nat \<times> nat) option" where
  "parse_hms s =
     (if length s = 8 \<and> s ! 2 = CHR '':'' \<and> s ! 5 = CHR '':'' then
        (case (parse_nat (take 2 s), parse_nat (take 2 (drop 3 s)), parse_nat (drop 6 s)) of
           (Some h, Some m, Some x) \<Rightarrow>
             if h < 24 \<and> m < 60 \<and> x < 60 then Some (h, m, x) else None
         | _ \<Rightarrow> None)
      else None)"

definition parse_offset :: "string \<Rightarrow> int option" where
  "parse_offset s =
     (if length s = 6 \<and> (s ! 0 = CHR ''+'' \<or> s ! 0 = CHR ''-'') \<and> s ! 3 = CHR '':'' then
        (case (parse_nat (take 2 (drop 1 s)), parse_nat (drop 4 s)) of
           (Some h, Some m) \<Rightarrow>
             if h < 24 \<and> m < 60
             then Some ((if s ! 0 = CHR ''-'' then - 1 else 1) * (int h * 3600 + int m * 60))
             else None
         | _ \<Rightarrow> None)
      else None)"

definition iso_parse :: "string \<Rightarrow> datetime option" where
  "iso_parse s =
     (case parse_ymd (take 10 s) of
        None \<Rightarrow> None
      | Some (y, m, d) \<Rightarrow>
          if length s = 10 then Some (mk_date y m d)
          else if length s = 19 \<or> length s = 25 then
            (case parse_hms (take 8 (drop 11 s)) of
               None \<Rightarrow> None
             | Some (h, mi, x) \<Rightarrow>
                 if length s = 19 then
                   Some \<lparr>year = y, month = m, day = d, hour = h, minute = mi, second = x,
                         microsecond = 0, tzinfo = None\<rparr>
                 else
                   (case parse_offset (drop 19 s) of
                      None \<Rightarrow> None
                    | Some off \<Rightarrow>
                        Some \<lparr>year = y, month = m, day = d, hour = h, minute = mi,
                              second = x, microsecond = 0, tzinfo = Some off\<rparr>))
          else None)"

text \<open>ASCII text as bytes and back; on ASCII bytes UTF-8 decoding is this map.\<close>

definition encode_ascii :: "string \<Rightarrow> bytes" where
  "encode_ascii s = map (\<lambda>c. of_nat (of_char c)) s"

definition decode_ascii :: "bytes \<Rightarrow> string" where
  "decode_ascii bs = map (\<lambda>b. char_of (unat b)) (filter (\<lambda>b. b < 128) bs)"

definition pgn_plain :: string where
  \<open>pgn_plain =
     ''[Event "Test"]\<newline>[White "A"]\<newline>[Black "B"]\<newline>[Result "*"]\<newline>\<newline>1. e4 e5 *''\<close>

definition pgn_comment :: string where
  \<open>pgn_comment =
     ''[Event "Test"]\<newline>[White "A"]\<newline>[Black "B"]\<newline>[Result "*"]\<newline>\<newline>1. e4 {[Date unknown]} e5 *''\<close>

text \<open>
  Three archives, given by what reading them yields: one text member; one text member
  whose move text has a comment; and a text member followed by a member named
  \<^verbatim>\<open>b.pgn\<close> that cannot be read (a link whose target is not in the archive makes
  \<^verbatim>\<open>extractfile\<close> raise \<^verbatim>\<open>KeyError\<close>). Any other bytes are not an archive.
\<close>

definition archive_single :: bytes where
  "archive_single = [0x1f, 0x8b, 1]"

definition archive_comment :: bytes where
  "archive_comment = [0x1f, 0x8b, 2]"

definition archive_broken_member :: bytes where
  "archive_broken_member = [0x1f, 0x8b, 3]"

definition not_an_archive :: bytes where
  "not_an_archive = encode_ascii ''<html>''"

definition example_tar_open :: "bytes \<Rightarrow> tar_member list option" where
  "example_tar_open b =
     (if b = archive_single then
        Some [\<lparr>name = ''match_42.pgn'', extractfile = Content (encode_ascii pgn_plain)\<rparr>]
      else if b = archive_comment then
        Some [\<lparr>name = ''match_43.pgn'', extractfile = Content (encode_ascii pgn_comment)\<rparr>]
      else if b = archive_broken_member then
        Some [\<lparr>name = ''a.pgn'', extractfile = Content (encode_ascii pgn_plain)\<rparr>,
              \<lparr>name = ''b.pgn'', extractfile = ReadError\<rparr>]
      else None)"

definition example_lib :: pylib where
  "example_lib =
     \<lparr>fromisoformat = iso_parse, tar_open = example_tar_open, decode_utf8 = decode_ascii\<rparr>"

definition init_world :: world where
  "init_world = \<lparr>db = init_db, downloads = Map.empty, aggregates = Map.empty, requests = []\<rparr>"

text \<open>Entry 7, for which every candidate URL answers 200 with a payload that is no archive.\<close>

definition world7 :: world where
  "world7 =
     init_world\<lparr>db := insert_matches init_db
                         [(7, ''2021-03-15 10:00:00'', ''match_7.pgn.tar.gz'')]\<rparr>"

definition all_malformed :: "string \<Rightarrow> http_result" where
  "all_malformed url = Response 200 not_an_archive"

text \<open>Entry 9, downloaded, whose archive on disk has the member that cannot be read.\<close>

definition world9 :: world where
  "world9 =
     init_world
       \<lparr>db := update_download_status
                (insert_matches init_db [(9, ''2021-03-15 10:00:00'', ''match_9.pgn.tar.gz'')])
                9 ''success'' ''Downloaded'',
        downloads := [''match_9.pgn.tar.gz'' \<mapsto> archive_broken_member]\<rparr>"

text \<open>
  Entry 42: the first two candidate URLs answer 404, the third answers with the archive
  of one text member.
\<close>

definition entry42 :: match_data where
  "entry42 =
     \<lparr>d_match_id = 42, d_date = ''2021-03-15'', d_pgn_filename = ''match_42.pgn.tar.gz''\<rparr>"

definition world42 :: world where
  "world42 =
     init_world\<lparr>db := insert_matches init_db [(42, ''2021-03-15'', ''match_42.pgn.tar.gz'')]\<rparr>"

definition third_url_serves :: "string \<Rightarrow> http_result" where
  "third_url_serves url =
     (if url = ''https://storage.lczero.org/files/match_pgns/match_42.pgn.tar.gz''
      then Response 200 archive_single else Response 404 [])"

text \<open>A store with three pending entries and one that is downloaded.\<close>

definition example_db :: database where
  "example_db =
     update_download_status
       (insert_matches init_db
          [(1, ''2021-01-01'', ''match_1.pgn.tar.gz''),
           (2, ''2021-03-01'', ''match_2.pgn.tar.gz''),
           (3, ''2021-02-01'', ''match_3.pgn.tar.gz''),
           (4, ''2021-04-01'', ''match_4.pgn.tar.gz'')])
       4 ''success'' ''Downloaded''"

text \<open>A store of four pending entries of one date, inserted in the order 5, 3, 9, 1.\<close>

definition same_date_db :: database where
  "same_date_db =
     insert_matches init_db
       [(5, ''2021-05-05'', ''match_5.pgn.tar.gz''),
        (3, ''2021-05-05'', ''match_3.pgn.tar.gz''),
        (9, ''2021-05-05'', ''match_9.pgn.tar.gz''),
        (1, ''2021-05-05'', ''match_1.pgn.tar.gz'')]"

text \<open>The same store with the entries 3 and 1 set to \<^verbatim>\<open>retry\<close> after one attempt.\<close>

definition mixed_status_db :: database where
  "mixed_status_db =
     update_download_status (update_download_status same_date_db 3 ''retry'' ''again'')
       1 ''retry'' ''again''"

text \<open>
  A store of five downloaded entries, inserted in the order 5, 3, 9, 1, 8: entry 8 is of
  April, the others of one day of May.
\<close>

definition downloaded_db :: database where
  "downloaded_db =
     foldl (\<lambda>d i. update_download_status d i ''success'' ''Downloaded'')
       (insert_matches same_date_db [(8, ''2021-04-04'', ''match_8.pgn.tar.gz'')])
       [5, 3, 9, 1, 8]"

text \<open>Entry 42 once \<^verbatim>\<open>download_match\<close> has run with these responses.\<close>

definition world42_downloaded :: world where
  "world42_downloaded = fst (download_match example_lib third_url_serves entry42 world42)"

text \<open>Entry 43, downloaded, whose archive holds the text with the comment.\<close>

definition world43 :: world where
  "world43 =
     init_world
       \<lparr>db := update_download_status
                (insert_matches init_db [(43, ''2021-03-15'', ''match_43.pgn.tar.gz'')])
                43 ''success'' ''Downloaded'',
        downloads := [''match_43.pgn.tar.gz'' \<mapsto> archive_comment]\<rparr>"

text \<open>Entry 10, downloaded, whose file on disk is no archive any more.\<close>

definition world10 :: world where
  "world10 =
     init_world
       \<lparr>db := update_download_status
                (insert_matches init_db [(10, ''2021-03-15'', ''match_10.pgn.tar.gz'')])
                10 ''success'' ''Downloaded'',
        downloads := [''match_10.pgn.tar.gz'' \<mapsto> not_an_archive]\<rparr>"

subsection \<open>Words of the claims about the rewritten text\<close>

text \<open>
  The identity lines of a game text are the lines that start with \<^verbatim>\<open>[White\<close> or
  \<^verbatim>\<open>[Black\<close> (the test the code makes); the canonical header of such a line names
  \<^verbatim>\<open>Lc0\<close> with a version.
\<close>

definition identity_line :: "string \<Rightarrow> bool" where
  "identity_line l = (startswith l ''[White'' \<or> startswith l ''[Black'')"

definition canonical_header :: "string \<Rightarrow> string \<Rightarrow> string" where
  "canonical_header v l = (if startswith l ''[White'' then white_header v else black_header v)"

text \<open>The lines that start with none of \<^verbatim>\<open>[Event\<close>, \<^verbatim>\<open>[White\<close> and \<^verbatim>\<open>[Black\<close>.\<close>

definition plain_line :: "string \<Rightarrow> bool" where
  "plain_line l =
     (\<not> startswith l ''[Event'' \<and> \<not> startswith l ''[White'' \<and> \<not> startswith l ''[Black'')"

section \<open>The match database\<close>

subsection \<open>Inserting\<close>

lemma insert_or_ignore_ids:
  "match_id ` set (matches (insert_or_ignore d (i, dt, fn))) = insert i (match_id ` set (matches d))"
  by (auto simp: insert_or_ignore_def set_insort_key)

lemma distinct_map_insort_key:
  "distinct (map f (insort_key f x xs)) \<longleftrightarrow> f x \<notin> f ` set xs \<and> distinct (map f xs)"
  by (induction xs) (auto simp: set_insort_key)

lemma insert_or_ignore_valid: "valid_db d \<Longrightarrow> valid_db (insert_or_ignore d m)"
  by (cases m) (auto simp: insert_or_ignore_def valid_db_def distinct_map_insort_key)

lemma insert_or_ignore_rowid_order: "rowid_order d \<Longrightarrow> rowid_order (insert_or_ignore d m)"
  by (cases m) (auto simp: insert_or_ignore_def rowid_order_def sorted_insort_key)

lemma insert_matches_rowid_order: "rowid_order d \<Longrightarrow> rowid_order (insert_matches d ms)"
  unfolding insert_matches_def
  by (induction ms arbitrary: d) (auto simp: insert_or_ignore_rowid_order)

lemma insert_matches_valid: "valid_db d \<Longrightarrow> valid_db (insert_matches d ms)"
  unfolding insert_matches_def
  by (induction ms arbitrary: d) (auto simp: insert_or_ignore_valid)

lemma insert_matches_ids:
  "match_id ` set (matches (insert_matches d ms)) = match_id ` set (matches d) \<union> fst ` set ms"
  unfolding insert_matches_def
proof (induction ms arbitrary: d)
  case Nil
  then show ?case by simp
next
  case (Cons m ms)
  obtain i dt fn where m: "m = (i, dt, fn)" by (cases m)
  show ?case
    using Cons.IH [of "insert_or_ignore d m"] insert_or_ignore_ids [of d i dt fn]
    by (auto simp: m)
qed

lemma insert_matches_existing:
  "fst ` set ms \<subseteq> match_id ` set (matches d) \<Longrightarrow> insert_matches d ms = d"
  unfolding insert_matches_def
proof (induction ms arbitrary: d)
  case Nil
  then show ?case by simp
next
  case (Cons m ms)
  obtain i dt fn where m: "m = (i, dt, fn)" by (cases m)
  from Cons.prems have "insert_or_ignore d m = d"
    by (simp add: m insert_or_ignore_def)
  with Cons show ?case by simp
qed

lemma distinct_filter_one:
  "distinct (map f xs) \<Longrightarrow> x \<in> set xs \<Longrightarrow> filter (\<lambda>y. f y = f x) xs = [x]"
proof (induction xs)
  case Nil
  then show ?case by simp
next
  case (Cons a xs)
  show ?case
  proof (cases "a = x")
    case True
    with Cons.prems have "\<forall>y\<in>set xs. f y \<noteq> f x" by (auto simp: image_iff)
    then have "filter (\<lambda>y. f y = f x) xs = []" by (simp add: filter_empty_conv)
    with True show ?thesis by simp
  next
    case False
    with Cons.prems have "x \<in> set xs" "f a \<noteq> f x" by (auto simp: image_iff)
    with Cons show ?thesis by simp
  qed
qed

text \<open>
  Claim C6. Inserting an entry whose id is already in the store changes nothing, whatever
  the row's status, attempts and processed flag have become; inserting the same entry (or
  the same batch) a second time changes nothing; and after inserting an entry twice into a
  store whose ids are unique, as the primary key makes them, the table has exactly one row
  with that id.
\<close>

theorem insert_matches_idempotent:
  "(i \<in> set (map match_id (matches d)) \<longrightarrow> insert_matches d [(i, dt, fn)] = d)
   \<and> insert_matches (insert_matches d [(i, dt, fn)]) [(i, dt, fn)] = insert_matches d [(i, dt, fn)]
   \<and> insert_matches (insert_matches d ms) ms = insert_matches d ms
   \<and> (valid_db d \<longrightarrow>
        length (filter (\<lambda>r. match_id r = i)
          (matches (insert_matches (insert_matches d [(i, dt, fn)]) [(i, dt, fn)]))) = 1)"
proof -
  have a: "i \<in> set (map match_id (matches d)) \<longrightarrow> insert_matches d [(i, dt, fn)] = d"
    by (simp add: insert_matches_def insert_or_ignore_def)
  have c: "insert_matches (insert_matches d ms) ms = insert_matches d ms" for ms
    by (rule insert_matches_existing) (simp add: insert_matches_ids)
  have d: "length (filter (\<lambda>r. match_id r = i)
          (matches (insert_matches (insert_matches d [(i, dt, fn)]) [(i, dt, fn)]))) = 1"
    if v: "valid_db d"
  proof -
    let ?d1 = "insert_matches d [(i, dt, fn)]"
    have "valid_db ?d1" using v by (rule insert_matches_valid)
    then have dist: "distinct (map match_id (matches ?d1))" by (simp add: valid_db_def)
    have "i \<in> match_id ` set (matches ?d1)" by (simp add: insert_matches_ids)
    then obtain r where r: "r \<in> set (matches ?d1)" "match_id r = i" by auto
    from distinct_filter_one [OF dist r(1)] r(2)
    have "filter (\<lambda>y. match_id y = i) (matches ?d1) = [r]" by simp
    then show ?thesis by (simp add: c)
  qed
  from a c d show ?thesis by blast
qed

text \<open>
  In the example store entry 4 is downloaded with one attempt; inserting id 4 again, with
  another date and file name, leaves the store as it is.
\<close>

theorem insert_matches_idempotent_witness:
  "valid_db example_db
   \<and> 4 \<in> set (map match_id (matches example_db))
   \<and> insert_matches example_db [(4, ''2022-01-01'', ''other.pgn'')] = example_db
   \<and> length (filter (\<lambda>r. match_id r = 4)
        (matches (insert_matches (insert_matches example_db [(4, ''2022-01-01'', ''other.pgn'')])
           [(4, ''2022-01-01'', ''other.pgn'')]))) = 1
   \<and> map download_status (filter (\<lambda>r. match_id r = 4) (matches example_db)) = [''success'']"
proof -
  have v: "valid_db example_db" by code_simp
  have m: "4 \<in> set (map match_id (matches example_db))" by code_simp
  have s: "map download_status (filter (\<lambda>r. match_id r = 4) (matches example_db)) = [''success'']"
    by code_simp
  from insert_matches_idempotent [of 4 example_db "''2022-01-01''" "''other.pgn''" "[]"] v m s
  show ?thesis by blast
qed

subsection \<open>The pending query\<close>

lemma mset_insort_desc: "mset (insort_desc r xs) = add_mset r (mset xs)"
  by (induction xs) auto

lemma mset_order_by_date_desc: "mset (order_by_date_desc rs) = mset rs"
  unfolding order_by_date_desc_def
  by (induction rs) (auto simp: mset_insort_desc)

lemma set_insort_desc: "set (insort_desc r xs) = insert r (set xs)"
  by (induction xs) auto

lemma set_order_by_date_desc: "set (order_by_date_desc rs) = set rs"
  unfolding order_by_date_desc_def
  by (induction rs) (auto simp: set_insort_desc)

lemma length_order_by_date_desc: "length (order_by_date_desc rs) = length rs"
  by (metis mset_order_by_date_desc size_mset)

lemma sorted_insort_desc:
  "sorted_wrt (\<lambda>a b. date b \<le> date a) xs
   \<Longrightarrow> sorted_wrt (\<lambda>a b. date b \<le> date a) (insort_desc r xs)"
proof (induction xs)
  case Nil
  then show ?case by simp
next
  case (Cons x xs)
  show ?case
  proof (cases "date x \<le> date r")
    case True
    with Cons.prems show ?thesis by (auto intro: order_trans)
  next
    case False
    then have "date r \<le> date x" by simp
    with Cons show ?thesis by (auto simp: set_insort_desc)
  qed
qed

lemma sorted_order_by_date_desc:
  "sorted_wrt (\<lambda>a b. date b \<le> date a) (order_by_date_desc rs)"
  unfolding order_by_date_desc_def
  by (induction rs) (auto simp: sorted_insort_desc)

lemma sorted_wrt_take: "sorted_wrt P xs \<Longrightarrow> sorted_wrt P (take n xs)"
  by (metis append_take_drop_id sorted_wrt_append)

lemma mset_filter_two:
  assumes "\<And>r. P r \<Longrightarrow> \<not> Q r"
  shows "mset (filter A (filter P xs @ filter Q xs)) = mset (filter (\<lambda>r. (P r \<or> Q r) \<and> A r) xs)"
  using assms by (induction xs) (auto simp: filter_filter_mset)

lemma mset_pending_scan: "mset (pending_scan d) = mset (filter is_pending (matches d))"
proof -
  have "mset (pending_scan d)
        = mset (filter (\<lambda>r. (download_status r = ''pending'' \<or> download_status r = ''retry'')
                            \<and> download_attempts r < MAX_RETRIES) (matches d))"
    unfolding pending_scan_def with_status_def by (rule mset_filter_two) simp
  also have "(\<lambda>r. (download_status r = ''pending'' \<or> download_status r = ''retry'')
                            \<and> download_attempts r < MAX_RETRIES) = is_pending"
    by (rule ext) (simp add: is_pending_def)
  finally show ?thesis .
qed

lemma set_pending_scan: "set (pending_scan d) = {r \<in> set (matches d). is_pending r}"
  by (auto simp: pending_scan_def with_status_def is_pending_def)

lemma length_pending_scan: "length (pending_scan d) = length (filter is_pending (matches d))"
  by (metis mset_pending_scan size_mset)

lemma sorted_pending_all:
  "sorted_wrt (\<lambda>a b. d_date b \<le> d_date a)
     (map to_match_data (order_by_date_desc (pending_scan d)))"
  using sorted_order_by_date_desc [of "pending_scan d"]
  by (simp add: sorted_wrt_map to_match_data_def)

lemma get_pending_sorted:
  "sorted_wrt (\<lambda>a b. d_date b \<le> d_date a) (get_pending_downloads d limit)"
  using sorted_pending_all [of d]
  by (auto simp: get_pending_downloads_def Let_def sorted_wrt_take split: option.splits)

lemma pending_row:
  assumes "m \<in> set (get_pending_downloads d limit)"
  shows "\<exists>r\<in>set (matches d). is_pending r \<and> to_match_data r = m"
proof -
  from assms
  have "m \<in> set (map to_match_data (order_by_date_desc (pending_scan d)))"
    by (auto simp: get_pending_downloads_def Let_def split: option.splits if_splits
          dest: in_set_takeD)
  then show ?thesis
    by (auto simp: set_order_by_date_desc set_pending_scan)
qed

text \<open>
  The sort is stable: rows of one date stay in the order in which the scan has read them.
\<close>

lemma insort_desc_ties:
  assumes "sorted_wrt (\<lambda>a b. date b < date a \<or> (date a = date b \<and> R a b)) ys"
    and "\<forall>y\<in>set ys. R x y"
  shows "sorted_wrt (\<lambda>a b. date b < date a \<or> (date a = date b \<and> R a b)) (insort_desc x ys)"
  using assms
proof (induction ys)
  case Nil
  then show ?case by simp
next
  case (Cons y ys)
  show ?case
  proof (cases "date y \<le> date x")
    case True
    have "date z < date x \<or> (date x = date z \<and> R x z)"
      if "z \<in> set (y # ys)" for z
    proof -
      from that Cons.prems(1) have "date z \<le> date y" by auto
      from this True have "date z \<le> date x" by (rule order_trans)
      moreover from that Cons.prems(2) have "R x z" by auto
      ultimately show ?thesis by auto
    qed
    with True Cons.prems(1) show ?thesis by simp
  next
    case False
    then have "date x < date y" by simp
    with False Cons show ?thesis by (auto simp: set_insort_desc)
  qed
qed

lemma order_by_date_desc_ties:
  "sorted_wrt R rs \<Longrightarrow>
   sorted_wrt (\<lambda>a b. date b < date a \<or> (date a = date b \<and> R a b)) (order_by_date_desc rs)"
proof (induction rs)
  case Nil
  then show ?case by (simp add: order_by_date_desc_def)
next
  case (Cons r rs)
  from Cons have "sorted_wrt (\<lambda>a b. date b < date a \<or> (date a = date b \<and> R a b))
                    (order_by_date_desc rs)" by simp
  moreover from Cons.prems have "\<forall>y\<in>set (order_by_date_desc rs). R r y"
    by (simp add: set_order_by_date_desc)
  ultimately have "sorted_wrt (\<lambda>a b. date b < date a \<or> (date a = date b \<and> R a b))
                    (insort_desc r (order_by_date_desc rs))"
    by (rule insort_desc_ties)
  then show ?case by (simp add: order_by_date_desc_def)
qed

lemma pending_before_retry: "''pending'' < ''retry''"
  by simp

lemma pending_scan_order:
  assumes "valid_db d" and "rowid_order d"
  shows "sorted_wrt scan_order (pending_scan d)"
proof -
  from assms have "sorted_wrt (<) (map match_id (matches d))"
    by (simp add: valid_db_def rowid_order_def strict_sorted_iff)
  then have ids: "sorted_wrt (\<lambda>a b. match_id a < match_id b) (matches d)"
    by (simp add: sorted_wrt_map)
  have one: "sorted_wrt scan_order (with_status st (matches d))" for st
  proof -
    from ids have "sorted_wrt (\<lambda>a b. match_id a < match_id b) (with_status st (matches d))"
      unfolding with_status_def by (rule sorted_wrt_filter)
    moreover have "\<forall>a\<in>set (with_status st (matches d)). download_status a = st"
      by (simp add: with_status_def)
    ultimately show ?thesis
      by (auto simp: scan_order_def elim!: sorted_wrt_mono_rel [rotated])
  qed
  have "scan_order a b"
    if "a \<in> set (with_status ''pending'' (matches d))"
      and "b \<in> set (with_status ''retry'' (matches d))" for a b
  proof -
    from that have "download_status a = ''pending''" "download_status b = ''retry''"
      by (simp_all add: with_status_def)
    with pending_before_retry show ?thesis by (simp only: scan_order_def) simp
  qed
  with one [of "''pending''"] one [of "''retry''"]
  have "sorted_wrt scan_order
          (with_status ''pending'' (matches d) @ with_status ''retry'' (matches d))"
    by (simp add: sorted_wrt_append)
  then show ?thesis
    unfolding pending_scan_def by (rule sorted_wrt_filter)
qed

lemma pending_rows_order:
  assumes "valid_db d" and "rowid_order d"
  shows "sorted_wrt date_desc_then_scan (order_by_date_desc (pending_scan d))"
proof -
  from assms have "sorted_wrt scan_order (pending_scan d)" by (rule pending_scan_order)
  then have "sorted_wrt (\<lambda>a b. date b < date a \<or> (date a = date b \<and> scan_order a b))
               (order_by_date_desc (pending_scan d))"
    by (rule order_by_date_desc_ties)
  then show ?thesis
    by (simp add: date_desc_then_scan_def [abs_def])
qed

text \<open>
  Claim C5. Without a limit \<^verbatim>\<open>get_pending_downloads\<close> returns exactly the rows whose status
  is pending or retry and whose attempts are below 3, each once, as the id, the date and
  the file name of the row: the answer is the projection of a list \<open>rs\<close> of rows that is a
  rearrangement of the eligible rows of the table, in descending order of date. In a store
  whose rows have distinct ids and stand in rowid order, as in every store reached from
  the empty one, rows of one date stand in \<open>rs\<close> in the order of the scan: pending before
  retry, then by ascending id; this fixes the whole answer. Whatever the limit, the
  answer is in descending order of date. A positive limit gives the first entries of the
  full answer, as many as the limit says or all of them when there are fewer; the limit 0
  and a negative limit give the full answer.
\<close>

theorem get_pending_downloads_spec:
  "(\<exists>rs. map (\<lambda>m. (d_match_id m, d_date m, d_pgn_filename m)) (get_pending_downloads d None)
            = map (\<lambda>r. (match_id r, date r, pgn_filename r)) rs
         \<and> mset rs =
             mset (filter (\<lambda>r. (download_status r = ''pending'' \<or> download_status r = ''retry'')
                               \<and> download_attempts r < 3) (matches d))
         \<and> sorted_wrt (\<lambda>a b. date b \<le> date a) rs
         \<and> (valid_db d \<and> rowid_order d \<longrightarrow> sorted_wrt date_desc_then_scan rs))
   \<and> sorted_wrt (\<lambda>a b. d_date b \<le> d_date a) (get_pending_downloads d limit)
   \<and> get_pending_downloads d (Some n) =
       (if 0 < n then take (nat n) (get_pending_downloads d None)
        else get_pending_downloads d None)
   \<and> (0 < n \<longrightarrow>
        length (get_pending_downloads d (Some n)) =
          min (nat n)
            (length (filter (\<lambda>r. (download_status r = ''pending''
                                   \<or> download_status r = ''retry'')
                                  \<and> download_attempts r < 3) (matches d))))"
proof -
  let ?rs = "order_by_date_desc (pending_scan d)"
  have p: "(\<lambda>r. (download_status r = ''pending'' \<or> download_status r = ''retry'')
                    \<and> download_attempts r < 3) = is_pending"
    by (rule ext) (simp add: is_pending_def MAX_RETRIES_def)
  have t: "(\<lambda>m. (d_match_id m, d_date m, d_pgn_filename m)) \<circ> to_match_data
           = (\<lambda>r. (match_id r, date r, pgn_filename r))"
    by (rule ext) (simp add: to_match_data_def)
  have "get_pending_downloads d None = map to_match_data ?rs"
    by (simp add: get_pending_downloads_def)
  then have a1: "map (\<lambda>m. (d_match_id m, d_date m, d_pgn_filename m))
                   (get_pending_downloads d None)
                 = map (\<lambda>r. (match_id r, date r, pgn_filename r)) ?rs"
    by (simp only: map_map t)
  have a2: "mset ?rs = mset (filter is_pending (matches d))"
    by (simp only: mset_order_by_date_desc mset_pending_scan)
  have a3: "sorted_wrt (\<lambda>a b. date b \<le> date a) ?rs"
    by (rule sorted_order_by_date_desc)
  have a4: "valid_db d \<and> rowid_order d \<longrightarrow> sorted_wrt date_desc_then_scan ?rs"
    by (simp add: pending_rows_order)
  from a1 a2 a3 a4
  have a: "\<exists>rs. map (\<lambda>m. (d_match_id m, d_date m, d_pgn_filename m))
                   (get_pending_downloads d None)
                 = map (\<lambda>r. (match_id r, date r, pgn_filename r)) rs
         \<and> mset rs = mset (filter is_pending (matches d))
         \<and> sorted_wrt (\<lambda>a b. date b \<le> date a) rs
         \<and> (valid_db d \<and> rowid_order d \<longrightarrow> sorted_wrt date_desc_then_scan rs)"
    by blast
  have c: "get_pending_downloads d (Some n) =
       (if 0 < n then take (nat n) (get_pending_downloads d None)
        else get_pending_downloads d None)"
    by (auto simp: get_pending_downloads_def Let_def)
  have l: "0 < n \<longrightarrow>
        length (get_pending_downloads d (Some n)) =
          min (nat n) (length (filter is_pending (matches d)))"
    by (auto simp: get_pending_downloads_def Let_def length_order_by_date_desc
          length_pending_scan)
  from a get_pending_sorted [of d limit] c l show ?thesis
    unfolding p by blast
qed

text \<open>
  The example store has the pending entries 1, 2 and 3, dated January, March and
  February, and entry 4, which is downloaded: the full answer is entry 2, entry 3,
  entry 1; a limit of 2 gives entry 2 and entry 3, a limit of 100 and a limit of 0 give
  all three. In the store of four pending entries of one date, inserted as 5, 3, 9, 1,
  the answer is 1, 3, 5, 9. With the entries 3 and 1 set to retry it is 5, 9, 1, 3, the
  projection of rows in the order of the scan.
\<close>

theorem get_pending_downloads_witness:
  "get_pending_downloads example_db None =
     [\<lparr>d_match_id = 2, d_date = ''2021-03-01'', d_pgn_filename = ''match_2.pgn.tar.gz''\<rparr>,
      \<lparr>d_match_id = 3, d_date = ''2021-02-01'', d_pgn_filename = ''match_3.pgn.tar.gz''\<rparr>,
      \<lparr>d_match_id = 1, d_date = ''2021-01-01'', d_pgn_filename = ''match_1.pgn.tar.gz''\<rparr>]
   \<and> get_pending_downloads example_db (Some 2) =
     [\<lparr>d_match_id = 2, d_date = ''2021-03-01'', d_pgn_filename = ''match_2.pgn.tar.gz''\<rparr>,
      \<lparr>d_match_id = 3, d_date = ''2021-02-01'', d_pgn_filename = ''match_3.pgn.tar.gz''\<rparr>]
   \<and> length (get_pending_downloads example_db (Some 2)) = 2
   \<and> get_pending_downloads example_db (Some 100) = get_pending_downloads example_db None
   \<and> get_pending_downloads example_db (Some 0) = get_pending_downloads example_db None
   \<and> map d_match_id (get_pending_downloads same_date_db None) = [1, 3, 5, 9]
   \<and> map d_match_id (get_pending_downloads same_date_db (Some 2)) = [1, 3]
   \<and> valid_db mixed_status_db \<and> rowid_order mixed_status_db
   \<and> map d_match_id (get_pending_downloads mixed_status_db None) = [5, 9, 1, 3]
   \<and> (\<exists>rs. map (\<lambda>m. (d_match_id m, d_date m, d_pgn_filename m))
               (get_pending_downloads mixed_status_db None)
             = map (\<lambda>r. (match_id r, date r, pgn_filename r)) rs
          \<and> sorted_wrt date_desc_then_scan rs)"
proof -
  let ?full =
    "[\<lparr>d_match_id = 2, d_date = ''2021-03-01'', d_pgn_filename = ''match_2.pgn.tar.gz''\<rparr>,
      \<lparr>d_match_id = 3, d_date = ''2021-02-01'', d_pgn_filename = ''match_3.pgn.tar.gz''\<rparr>,
      \<lparr>d_match_id = 1, d_date = ''2021-01-01'', d_pgn_filename = ''match_1.pgn.tar.gz''\<rparr>]"
  have f: "get_pending_downloads example_db None = ?full" by code_simp
  have e: "length (filter (\<lambda>r. (download_status r = ''pending''
                                   \<or> download_status r = ''retry'')
                                  \<and> download_attempts r < 3) (matches example_db)) = 3"
    by code_simp
  from get_pending_downloads_spec [of example_db None 2] f
  have l2: "get_pending_downloads example_db (Some 2) = take (nat 2) ?full" by simp
  from get_pending_downloads_spec [of example_db None 2]
  have "0 < (2::int) \<longrightarrow> length (get_pending_downloads example_db (Some 2)) =
          min (nat 2)
            (length (filter (\<lambda>r. (download_status r = ''pending''
                                   \<or> download_status r = ''retry'')
                                  \<and> download_attempts r < 3) (matches example_db)))"
    by blast
  then have n2: "length (get_pending_downloads example_db (Some 2)) = 2"
    by (simp add: e)
  from get_pending_downloads_spec [of example_db None 100] f
  have l100: "get_pending_downloads example_db (Some 100) = take (nat 100) ?full" by simp
  from get_pending_downloads_spec [of example_db None 0]
  have l0: "get_pending_downloads example_db (Some 0) = get_pending_downloads example_db None"
    by simp
  have i: "map d_match_id (get_pending_downloads same_date_db None) = [1, 3, 5, 9]
           \<and> map d_match_id (get_pending_downloads same_date_db (Some 2)) = [1, 3]"
    by code_simp
  have v: "valid_db mixed_status_db \<and> rowid_order mixed_status_db" by code_simp
  have j: "map d_match_id (get_pending_downloads mixed_status_db None) = [5, 9, 1, 3]"
    by code_simp
  from get_pending_downloads_spec [of mixed_status_db None 2] v
  have x: "\<exists>rs. map (\<lambda>m. (d_match_id m, d_date m, d_pgn_filename m))
               (get_pending_downloads mixed_status_db None)
             = map (\<lambda>r. (match_id r, date r, pgn_filename r)) rs
          \<and> sorted_wrt date_desc_then_scan rs"
    by blast
  from f l2 n2 l100 l0 i v j x show ?thesis by simp
qed

subsection \<open>Processed entries are downloaded entries\<close>

lemma processed_inv_iff:
  "processed_inv d \<longleftrightarrow> (\<forall>r\<in>set (matches d). processed r \<longrightarrow> download_status r = ''success'')"
  by (auto simp: processed_inv_def list_all_iff)

lemma insert_or_ignore_inv: "processed_inv d \<Longrightarrow> processed_inv (insert_or_ignore d m)"
  by (cases m) (auto simp: processed_inv_iff insert_or_ignore_def set_insort_key)

lemma insert_matches_inv: "processed_inv d \<Longrightarrow> processed_inv (insert_matches d ms)"
  unfolding insert_matches_def
  by (induction ms arbitrary: d) (auto simp: insert_or_ignore_inv)

lemma update_ids:
  "map match_id (matches (update_download_status d i s msg)) = map match_id (matches d)"
  by (simp add: update_download_status_def comp_def if_distrib cong: if_cong)

lemma mark_ids: "map match_id (matches (mark_processed d i)) = map match_id (matches d)"
  by (simp add: mark_processed_def comp_def if_distrib cong: if_cong)

lemma update_valid: "valid_db d \<Longrightarrow> valid_db (update_download_status d i s msg)"
  by (simp only: valid_db_def update_ids)

lemma mark_valid: "valid_db d \<Longrightarrow> valid_db (mark_processed d i)"
  by (simp only: valid_db_def mark_ids)

lemma reachable_rowid_order: "reachable d \<Longrightarrow> rowid_order d"
proof (induction rule: reachable.induct)
  case start
  then show ?case by (simp add: rowid_order_def init_db_def)
next
  case (inserted d ms)
  then show ?case by (simp add: insert_matches_rowid_order)
next
  case (attempted d m limit status message)
  then show ?case by (simp only: rowid_order_def update_ids)
next
  case (marked d r)
  then show ?case by (simp only: rowid_order_def mark_ids)
qed

lemma valid_db_same_id:
  "valid_db d \<Longrightarrow> r \<in> set (matches d) \<Longrightarrow> r' \<in> set (matches d)
   \<Longrightarrow> match_id r = match_id r' \<Longrightarrow> r = r'"
  unfolding valid_db_def by (metis distinct_map inj_onD)

lemma update_inv:
  assumes v: "valid_db d" and inv: "processed_inv d"
    and m: "m \<in> set (get_pending_downloads d limit)"
  shows "processed_inv (update_download_status d (d_match_id m) s msg)"
proof -
  from pending_row [OF m] obtain p where p: "p \<in> set (matches d)" "is_pending p"
    "match_id p = d_match_id m" by (auto simp: to_match_data_def)
  from p(2) have "download_status p \<noteq> ''success''" by (auto simp: is_pending_def)
  with inv p(1) have np: "\<not> processed p" by (auto simp: processed_inv_iff)
  have "\<not> processed r" if "r \<in> set (matches d)" "match_id r = d_match_id m" for r
    using valid_db_same_id [OF v that(1) p(1)] that(2) p(3) np by simp
  with inv show ?thesis
    by (auto simp: processed_inv_iff update_download_status_def)
qed

lemma mark_inv:
  assumes v: "valid_db d" and inv: "processed_inv d"
    and r: "r \<in> set (matches d)" "download_status r = ''success''"
  shows "processed_inv (mark_processed d (match_id r))"
proof -
  have "download_status r' = ''success''"
    if "r' \<in> set (matches d)" "match_id r' = match_id r" for r'
    using valid_db_same_id [OF v that(1) r(1)] that(2) r(2) by simp
  with inv show ?thesis
    by (auto simp: processed_inv_iff mark_processed_def)
qed

lemma reachable_valid_inv: "reachable d \<Longrightarrow> valid_db d \<and> processed_inv d"
proof (induction rule: reachable.induct)
  case start
  then show ?case by (simp add: valid_db_def processed_inv_def init_db_def)
next
  case (inserted d ms)
  then show ?case by (simp add: insert_matches_valid insert_matches_inv)
next
  case (attempted d m limit status message)
  then show ?case by (simp add: update_valid update_inv)
next
  case (marked d r)
  then show ?case by (simp add: mark_valid mark_inv to_process_def)
qed

text \<open>
  Claim C7. In every store state reached from the empty store by \<^verbatim>\<open>insert_matches\<close>,
  by \<^verbatim>\<open>update_download_status\<close> on entries that \<^verbatim>\<open>get_pending_downloads\<close> returns and by
  \<^verbatim>\<open>mark_processed\<close> on rows with status success that are not processed, every processed
  row has the status success.
\<close>

theorem processed_implies_success:
  "reachable d \<Longrightarrow> r \<in> set (matches d) \<Longrightarrow> processed r \<Longrightarrow> download_status r = ''success''"
  using reachable_valid_inv [of d] by (auto simp: processed_inv_iff)

text \<open>
  Entry 42 is inserted, its download is recorded, and it is marked processed: the state
  is reachable and its one row is processed with status success.
\<close>

theorem processed_implies_success_witness:
  "reachable (mark_processed (update_download_status (db world42) 42 ''success'' ''Downloaded'') 42)
   \<and> list_all processed
       (matches (mark_processed (update_download_status (db world42) 42 ''success'' ''Downloaded'') 42))
   \<and> list_all (\<lambda>r. download_status r = ''success'')
       (matches (mark_processed (update_download_status (db world42) 42 ''success'' ''Downloaded'') 42))"
proof -
  let ?d1 = "db world42"
  let ?d2 = "update_download_status ?d1 42 ''success'' ''Downloaded''"
  let ?d3 = "mark_processed ?d2 42"
  let ?r2 = "\<lparr>match_id = 42, date = ''2021-03-15'', pgn_filename = ''match_42.pgn.tar.gz'',
              run_id = None, download_status = ''success'', download_attempts = 1,
              processed = False\<rparr>"
  have d1: "?d1 = insert_matches init_db [(42, ''2021-03-15'', ''match_42.pgn.tar.gz'')]"
    by (simp add: world42_def init_world_def)
  have r1: "reachable ?d1" unfolding d1 by (rule reachable.inserted) (rule reachable.start)
  have "entry42 \<in> set (get_pending_downloads ?d1 None)" by code_simp
  from reachable.attempted [OF r1 this, of "''success''" "''Downloaded''"]
  have r2: "reachable ?d2" by (simp add: entry42_def)
  have m2: "matches ?d2 = [?r2]" by code_simp
  have "?r2 \<in> set (matches ?d2)" "to_process ?r2"
    by (simp_all add: m2 to_process_def)
  from reachable.marked [OF r2 this] have r3: "reachable ?d3" by simp
  have p3: "list_all processed (matches ?d3)" by code_simp
  have "download_status r = ''success''" if "r \<in> set (matches ?d3)" for r
    using processed_implies_success [OF r3 that] p3 that by (simp add: list_all_iff)
  then have "list_all (\<lambda>r. download_status r = ''success'') (matches ?d3)"
    by (simp add: list_all_iff)
  with r3 p3 show ?thesis by blast
qed

text \<open>
  The program changes the store in three places: the scraper's \<^verbatim>\<open>insert_matches\<close>,
  \<^verbatim>\<open>download_all\<close> and \<^verbatim>\<open>process_all\<close>. A whole run of either of the last two from
  a reachable store ends in a reachable store, whatever the network answers and whatever
  is on disk: \<^verbatim>\<open>download_match\<close> updates the status of its own entry once, and
  \<^verbatim>\<open>process_match\<close> marks its own entry or leaves the store as it is.
\<close>

lemma pending_row_conv:
  "r \<in> set (matches d) \<Longrightarrow> is_pending r \<Longrightarrow> to_match_data r \<in> set (get_pending_downloads d None)"
  by (simp add: get_pending_downloads_def set_order_by_date_desc set_pending_scan)

lemma pending_subset_all:
  "set (get_pending_downloads d limit) \<subseteq> set (get_pending_downloads d None)"
  by (auto simp: get_pending_downloads_def Let_def split: option.splits dest: in_set_takeD)

lemma pending_ids_distinct:
  assumes "valid_db d"
  shows "distinct (map d_match_id (get_pending_downloads d limit))"
proof -
  let ?rows = "order_by_date_desc (pending_scan d)"
  have "distinct (map match_id (filter is_pending (matches d)))"
    using assms by (simp add: valid_db_def distinct_map_filter)
  moreover have "mset ?rows = mset (filter is_pending (matches d))"
    by (simp only: mset_order_by_date_desc mset_pending_scan)
  then have "mset (map match_id ?rows) = mset (map match_id (filter is_pending (matches d)))"
    by (metis mset_map)
  ultimately have d: "distinct (map match_id ?rows)"
    by (metis mset_eq_imp_distinct_iff)
  have c: "d_match_id \<circ> to_match_data = match_id"
    by (rule ext) (simp add: to_match_data_def)
  have e: "map d_match_id (map to_match_data ?rows) = map match_id ?rows"
    by (simp only: map_map c)
  from d have all: "distinct (map d_match_id (map to_match_data ?rows))"
    by (simp only: e)
  then have "distinct (take n (map d_match_id (map to_match_data ?rows)))" for n
    by (rule distinct_take)
  then have tk: "distinct (map d_match_id (take n (map to_match_data ?rows)))" for n
    by (simp only: take_map)
  show ?thesis
  proof (cases limit)
    case None
    with all show ?thesis by (simp add: get_pending_downloads_def del: map_map)
  next
    case (Some n)
    with all tk [of "nat n"] show ?thesis
      by (simp add: get_pending_downloads_def Let_def del: map_map)
  qed
qed

lemma try_urls_db:
  "try_urls L get mid fname urls w = (w', ok) \<Longrightarrow>
   (if ok then \<exists>url. db w' = update_download_status (db w) mid ''success''
                                (''Downloaded from '' @ url)
    else db w' = db w)"
proof (induction urls arbitrary: w)
  case Nil
  then show ?case by auto
next
  case (Cons url urls)
  let ?w1 = "w\<lparr>requests := requests w @ [url]\<rparr>"
  show ?case
  proof (cases "\<exists>c. get url = Response 200 c \<and> validate_pgn_content L c fname")
    case True
    then obtain c where "get url = Response 200 c" "validate_pgn_content L c fname" by blast
    with Cons.prems show ?thesis by (auto simp: Let_def)
  next
    case False
    then have "try_urls L get mid fname (url # urls) w = try_urls L get mid fname urls ?w1"
      by (cases "get url") (auto simp: Let_def)
    with Cons.prems have "try_urls L get mid fname urls ?w1 = (w', ok)" by simp
    from Cons.IH [OF this]
    have "if ok then \<exists>u. db w' = update_download_status (db ?w1) mid ''success''
                                (''Downloaded from '' @ u)
          else db w' = db ?w1" .
    moreover have "db ?w1 = db w" by simp
    ultimately show ?thesis by (simp only:)
  qed
qed

lemma download_match_db:
  "\<exists>status message. db (fst (download_match L get m w))
      = update_download_status (db w) (d_match_id m) status message"
proof -
  let ?urls = "url_patterns (extract_run_id (d_match_id m) (d_date m)) (d_match_id m)"
  obtain w1 ok where t: "try_urls L get (d_match_id m) (d_pgn_filename m) ?urls w = (w1, ok)"
    by (cases "try_urls L get (d_match_id m) (d_pgn_filename m) ?urls w")
  from try_urls_db [OF t] show ?thesis
    by (cases ok) (auto simp: download_match_def Let_def t)
qed

lemma update_other_row:
  "r \<in> set (matches d) \<Longrightarrow> match_id r \<noteq> i
   \<Longrightarrow> r \<in> set (matches (update_download_status d i s msg))"
  by (force simp: update_download_status_def)

lemma mark_other_row:
  "r \<in> set (matches d) \<Longrightarrow> match_id r \<noteq> i \<Longrightarrow> r \<in> set (matches (mark_processed d i))"
  by (force simp: mark_processed_def)

lemma download_fold_reachable:
  "reachable (db w) \<Longrightarrow> distinct (map d_match_id ps)
   \<Longrightarrow> set ps \<subseteq> set (get_pending_downloads (db w) None)
   \<Longrightarrow> reachable (db (foldl (\<lambda>w' m. fst (download_match L get m w')) w ps))"
proof (induction ps arbitrary: w)
  case Nil
  then show ?case by simp
next
  case (Cons m ps)
  let ?w1 = "fst (download_match L get m w)"
  from download_match_db [of L get m w] obtain s msg where
    d1: "db ?w1 = update_download_status (db w) (d_match_id m) s msg" by blast
  from Cons.prems have m: "m \<in> set (get_pending_downloads (db w) None)" by simp
  from reachable.attempted [OF Cons.prems(1) m] have r1: "reachable (db ?w1)"
    by (simp add: d1)
  have "set ps \<subseteq> set (get_pending_downloads (db ?w1) None)"
  proof
    fix m' assume m': "m' \<in> set ps"
    with Cons.prems have pm: "m' \<in> set (get_pending_downloads (db w) None)" by auto
    have "d_match_id m \<notin> set (map d_match_id ps)" using Cons.prems(2) by simp
    moreover have "d_match_id m' \<in> set (map d_match_id ps)" using m' by simp
    ultimately have ne: "d_match_id m' \<noteq> d_match_id m" by metis
    from pending_row [OF pm] obtain r where
      r: "r \<in> set (matches (db w))" "is_pending r" "to_match_data r = m'" by blast
    from r(3) ne have "match_id r \<noteq> d_match_id m" by (auto simp: to_match_data_def)
    from update_other_row [OF r(1) this] have "r \<in> set (matches (db ?w1))" by (simp add: d1)
    from pending_row_conv [OF this r(2)] r(3)
    show "m' \<in> set (get_pending_downloads (db ?w1) None)" by simp
  qed
  moreover from Cons.prems have "distinct (map d_match_id ps)" by simp
  ultimately have "reachable (db (foldl (\<lambda>w' m. fst (download_match L get m w')) ?w1 ps))"
    using r1 by (intro Cons.IH)
  then show ?case by simp
qed

lemma download_all_reachable:
  assumes "reachable (db w)"
  shows "reachable (db (download_all L get limit w))"
  unfolding download_all_def
proof (rule download_fold_reachable [OF assms])
  from reachable_valid_inv [OF assms] have "valid_db (db w)" by simp
  then show "distinct (map d_match_id (get_pending_downloads (db w) limit))"
    by (rule pending_ids_distinct)
  show "set (get_pending_downloads (db w) limit) \<subseteq> set (get_pending_downloads (db w) None)"
    by (rule pending_subset_all)
qed

lemma process_match_db:
  "db (process_match L mid date_str fname w) = db w
   \<or> db (process_match L mid date_str fname w) = mark_processed (db w) mid"
  by (auto simp: process_match_def Let_def split: option.splits prod.splits)

lemma process_fold_reachable:
  "reachable (db w) \<Longrightarrow> distinct (map match_id rs)
   \<Longrightarrow> \<forall>r\<in>set rs. r \<in> set (matches (db w)) \<and> to_process r
   \<Longrightarrow> reachable (db (foldl (\<lambda>w' r. process_match L (match_id r) (date r) (pgn_filename r) w')
                         w rs))"
proof (induction rs arbitrary: w)
  case Nil
  then show ?case by simp
next
  case (Cons r rs)
  let ?w1 = "process_match L (match_id r) (date r) (pgn_filename r) w"
  from Cons.prems have r: "r \<in> set (matches (db w))" "to_process r" by simp_all
  have r1: "reachable (db ?w1)"
    using process_match_db [of L "match_id r" "date r" "pgn_filename r" w]
      reachable.marked [OF Cons.prems(1) r] Cons.prems(1) by auto
  have "\<forall>r'\<in>set rs. r' \<in> set (matches (db ?w1)) \<and> to_process r'"
  proof
    fix r' assume r': "r' \<in> set rs"
    with Cons.prems have in': "r' \<in> set (matches (db w))" "to_process r'" by auto
    have "match_id r \<notin> set (map match_id rs)" using Cons.prems(2) by simp
    moreover have "match_id r' \<in> set (map match_id rs)" using r' by simp
    ultimately have ne: "match_id r' \<noteq> match_id r" by metis
    from process_match_db [of L "match_id r" "date r" "pgn_filename r" w]
      mark_other_row [OF in'(1) ne] in'
    show "r' \<in> set (matches (db ?w1)) \<and> to_process r'" by auto
  qed
  moreover from Cons.prems have "distinct (map match_id rs)" by simp
  ultimately have "reachable (db (foldl (\<lambda>w' r. process_match L (match_id r) (date r)
                                          (pgn_filename r) w') ?w1 rs))"
    using r1 by (intro Cons.IH)
  then show ?case by simp
qed

lemma process_all_reachable:
  assumes "reachable (db w)"
  shows "reachable (db (process_all L w))"
  unfolding process_all_def
proof (rule process_fold_reachable [OF assms])
  from reachable_valid_inv [OF assms] have "distinct (map match_id (matches (db w)))"
    by (simp add: valid_db_def)
  then have "distinct (map match_id (filter to_process (matches (db w))))"
    by (rule distinct_map_filter)
  moreover have "mset (map match_id (sort_key date (filter to_process (matches (db w)))))
                 = mset (map match_id (filter to_process (matches (db w))))"
    by simp
  ultimately show "distinct (map match_id (sort_key date (filter to_process (matches (db w)))))"
    by (metis mset_eq_imp_distinct_iff)
  show "\<forall>r\<in>set (sort_key date (filter to_process (matches (db w)))).
          r \<in> set (matches (db w)) \<and> to_process r"
    by simp
qed

section \<open>The downloader\<close>

subsection \<open>Validation\<close>

text \<open>
  Claim C9. \<^verbatim>\<open>_validate_pgn_content\<close> is a total function to the booleans. It answers
  true exactly when the file name ends in \<^verbatim>\<open>.tar.gz\<close> and the content opens as an archive
  with a member whose name ends in \<^verbatim>\<open>.pgn\<close>, or the file name ends in \<^verbatim>\<open>.pgn\<close> (and not
  in \<^verbatim>\<open>.tar.gz\<close>) and the first 500 decoded characters contain \<^verbatim>\<open>[Event\<close> or
  \<^verbatim>\<open>[White\<close>. An archive that raises while it is opened gives false, and so does any other
  file name.
\<close>

theorem validate_pgn_content_spec:
  "(validate_pgn_content L content filename \<longleftrightarrow>
      (endswith filename ''.tar.gz''
         \<and> (\<exists>members. tar_open L content = Some members
               \<and> (\<exists>m\<in>set members. endswith (name m) ''.pgn'')))
      \<or> (\<not> endswith filename ''.tar.gz'' \<and> endswith filename ''.pgn''
         \<and> (contains (take 500 (decode_utf8 L content)) ''[Event''
            \<or> contains (take 500 (decode_utf8 L content)) ''[White'')))
   \<and> (endswith filename ''.tar.gz'' \<and> tar_open L content = None
        \<longrightarrow> \<not> validate_pgn_content L content filename)
   \<and> (\<not> endswith filename ''.tar.gz'' \<and> \<not> endswith filename ''.pgn''
        \<longrightarrow> \<not> validate_pgn_content L content filename)"
  by (auto simp: validate_pgn_content_def Let_def list_ex_iff split: option.splits)

text \<open>
  Bytes that are no archive are rejected under an archive's name, and any bytes are
  rejected under a name with another extension.
\<close>

theorem validate_pgn_content_witness:
  "endswith ''match_7.pgn.tar.gz'' ''.tar.gz''
   \<and> tar_open example_lib not_an_archive = None
   \<and> \<not> validate_pgn_content example_lib not_an_archive ''match_7.pgn.tar.gz''
   \<and> \<not> endswith ''match_7.txt'' ''.tar.gz'' \<and> \<not> endswith ''match_7.txt'' ''.pgn''
   \<and> \<not> validate_pgn_content example_lib (encode_ascii pgn_plain) ''match_7.txt''"
proof -
  have a: "endswith ''match_7.pgn.tar.gz'' ''.tar.gz''
           \<and> tar_open example_lib not_an_archive = None" by code_simp
  have b: "\<not> endswith ''match_7.txt'' ''.tar.gz'' \<and> \<not> endswith ''match_7.txt'' ''.pgn''"
    by code_simp
  from validate_pgn_content_spec [of example_lib not_an_archive "''match_7.pgn.tar.gz''"] a
  have c: "\<not> validate_pgn_content example_lib not_an_archive ''match_7.pgn.tar.gz''"
    by blast
  from validate_pgn_content_spec [of example_lib "encode_ascii pgn_plain" "''match_7.txt''"] b
  have d: "\<not> validate_pgn_content example_lib (encode_ascii pgn_plain) ''match_7.txt''"
    by blast
  from a b c d show ?thesis by blast
qed

subsection \<open>The candidate URLs\<close>

text \<open>
  The four candidate URLs of an entry are distinct, so the responses of one call of
  \<^verbatim>\<open>download_match\<close> are a function of the URL.
\<close>

lemma digit_char_in: "k < 10 \<Longrightarrow> ''0123456789'' ! k \<in> set ''0123456789''"
  by (rule nth_mem) simp

lemma digits_chars: "set (digits n) \<subseteq> set ''0123456789''"
proof (induction n rule: digits.induct)
  case (1 n)
  show ?case
  proof (cases "n < 10")
    case True
    then have "digits n = [''0123456789'' ! n]" by (subst digits.simps) simp
    with digit_char_in [OF True] show ?thesis by simp
  next
    case False
    then have d: "digits n = digits (n div 10) @ [''0123456789'' ! (n mod 10)]"
      by (subst digits.simps) simp
    have "n mod 10 < 10" by simp
    from digit_char_in [OF this] 1 [OF False] show ?thesis by (simp add: d)
  qed
qed

lemma digits_nonempty: "digits n \<noteq> []"
  by (subst digits.simps) simp

lemma str_int_first: "\<exists>c cs. str_int i = c # cs \<and> c \<noteq> CHR ''m''"
proof -
  have a: "\<exists>c cs. digits n = c # cs \<and> c \<noteq> CHR ''m''" for n
  proof -
    obtain c cs where d: "digits n = c # cs" using digits_nonempty [of n] by (cases "digits n") auto
    with digits_chars [of n] have "c \<in> set ''0123456789''" by auto
    then have "c \<noteq> CHR ''m''" by auto
    with d show ?thesis by blast
  qed
  show ?thesis
  proof (cases "i < 0")
    case True
    then show ?thesis by (simp add: str_int_def)
  next
    case False
    with a [of "nat i"] show ?thesis by (simp add: str_int_def)
  qed
qed

lemma url_patterns_distinct: "distinct (url_patterns rid mid)"
proof -
  obtain c cs where r: "str_int rid = c # cs" "c \<noteq> CHR ''m''"
    using str_int_first [of rid] by blast
  show ?thesis
    by (simp add: url_patterns_def r)
qed

lemma try_urls_first_accepted:
  assumes "k < length urls"
    and "get (urls ! k) = Response 200 content"
    and "validate_pgn_content L content fname"
    and "\<forall>j<k. \<forall>c. get (urls ! j) = Response 200 c \<longrightarrow> \<not> validate_pgn_content L c fname"
  shows "try_urls L get mid fname urls w =
           (w\<lparr>requests := requests w @ take (Suc k) urls,
              downloads := (downloads w)(fname \<mapsto> content),
              db := update_download_status (db w) mid ''success''
                      (''Downloaded from '' @ urls ! k)\<rparr>,
            True)"
  using assms
proof (induction urls arbitrary: k w)
  case Nil
  then show ?case by simp
next
  case (Cons url urls)
  show ?case
  proof (cases k)
    case 0
    with Cons.prems show ?thesis by (auto simp: Let_def intro!: world.equality)
  next
    case (Suc k')
    let ?w1 = "w\<lparr>requests := requests w @ [url]\<rparr>"
    from Cons.prems Suc have k': "k' < length urls" "get (urls ! k') = Response 200 content"
      by simp_all
    have rej: "\<forall>j<k'. \<forall>c. get (urls ! j) = Response 200 c \<longrightarrow> \<not> validate_pgn_content L c fname"
    proof (intro allI impI)
      fix j c assume "j < k'" "get (urls ! j) = Response 200 c"
      with Cons.prems(4) Suc show "\<not> validate_pgn_content L c fname"
        by (auto dest: spec [where x = "Suc j"])
    qed
    have first: "\<forall>c. get url = Response 200 c \<longrightarrow> \<not> validate_pgn_content L c fname"
      using Cons.prems(4) Suc by (auto dest: spec [where x = 0])
    have step: "try_urls L get mid fname (url # urls) w = try_urls L get mid fname urls ?w1"
      using first by (cases "get url") (auto simp: Let_def)
    have ih: "try_urls L get mid fname urls ?w1 =
           (?w1\<lparr>requests := requests ?w1 @ take (Suc k') urls,
              downloads := (downloads ?w1)(fname \<mapsto> content),
              db := update_download_status (db ?w1) mid ''success''
                      (''Downloaded from '' @ urls ! k')\<rparr>,
            True)"
      using Cons.IH [OF k'(1) k'(2) Cons.prems(3) rej] .
    have eq: "?w1\<lparr>requests := requests ?w1 @ take (Suc k') urls,
              downloads := (downloads ?w1)(fname \<mapsto> content),
              db := update_download_status (db ?w1) mid ''success''
                      (''Downloaded from '' @ urls ! k')\<rparr>
        = w\<lparr>requests := requests w @ take (Suc k) (url # urls),
              downloads := (downloads w)(fname \<mapsto> content),
              db := update_download_status (db w) mid ''success''
                      (''Downloaded from '' @ (url # urls) ! k)\<rparr>"
      by (rule world.equality) (simp_all add: Suc)
    show ?thesis
      by (simp only: step ih eq)
  qed
qed

lemma try_urls_all_rejected:
  assumes "\<forall>u\<in>set urls. \<forall>c. get u = Response 200 c \<longrightarrow> \<not> validate_pgn_content L c fname"
  shows "try_urls L get mid fname urls w = (w\<lparr>requests := requests w @ urls\<rparr>, False)"
  using assms
proof (induction urls arbitrary: w)
  case Nil
  then show ?case by simp
next
  case (Cons url urls)
  let ?w1 = "w\<lparr>requests := requests w @ [url]\<rparr>"
  have "try_urls L get mid fname (url # urls) w = try_urls L get mid fname urls ?w1"
    using Cons.prems by (cases "get url") (auto simp: Let_def)
  with Cons show ?case by simp
qed

text \<open>
  Claim C8. Let \<open>urls\<close> be the candidate URLs of an entry and \<open>k\<close> the first position
  whose response has status 200 and a payload that passes validation. Then
  \<^verbatim>\<open>download_match\<close> requests the candidates up to \<open>k\<close> and no other, writes the payload
  under the entry's file name, records the status success and returns true; and it does
  the same for any other responses that agree with these up to \<open>k\<close>.
\<close>

theorem download_match_first_accepted_wins:
  assumes "urls = url_patterns (extract_run_id (d_match_id m) (d_date m)) (d_match_id m)"
    and "k < length urls"
    and "get (urls ! k) = Response 200 content"
    and "validate_pgn_content L content (d_pgn_filename m)"
    and "\<forall>j<k. \<forall>c. get (urls ! j) = Response 200 c
                \<longrightarrow> \<not> validate_pgn_content L c (d_pgn_filename m)"
  shows "download_match L get m w =
           (w\<lparr>requests := requests w @ take (Suc k) urls,
              downloads := (downloads w)(d_pgn_filename m \<mapsto> content),
              db := update_download_status (db w) (d_match_id m) ''success''
                      (''Downloaded from '' @ urls ! k)\<rparr>,
            True)
         \<and> ((\<forall>j\<le>k. get' (urls ! j) = get (urls ! j))
              \<longrightarrow> download_match L get' m w = download_match L get m w)"
proof -
  have main: "download_match L g m w =
           (w\<lparr>requests := requests w @ take (Suc k) urls,
              downloads := (downloads w)(d_pgn_filename m \<mapsto> content),
              db := update_download_status (db w) (d_match_id m) ''success''
                      (''Downloaded from '' @ urls ! k)\<rparr>,
            True)"
    if same: "\<forall>j\<le>k. g (urls ! j) = get (urls ! j)" for g
  proof -
    from same assms(3) have a: "g (urls ! k) = Response 200 content" by simp
    from same assms(5) have b: "\<forall>j<k. \<forall>c. g (urls ! j) = Response 200 c
                \<longrightarrow> \<not> validate_pgn_content L c (d_pgn_filename m)" by simp
    show ?thesis
      unfolding download_match_def Let_def assms(1) [symmetric]
      using try_urls_first_accepted [OF assms(2) a assms(4) b, of "d_match_id m" w]
      by simp
  qed
  from main [of get] main [of get'] show ?thesis by simp
qed

text \<open>
  Entry 42: the first two candidates answer 404 and the third serves the archive. The
  three URLs are requested, the archive is on disk, the status is success; a timeout on
  the fourth candidate instead of its 404 changes nothing.
\<close>

theorem download_match_first_accepted_wins_witness:
  "snd (download_match example_lib third_url_serves entry42 world42)
   \<and> requests (fst (download_match example_lib third_url_serves entry42 world42)) =
       [''https://storage.lczero.org/files/match_pgns/1/match_42.pgn.tar.gz'',
        ''https://storage.lczero.org/files/match_pgns/1/match_42.pgn'',
        ''https://storage.lczero.org/files/match_pgns/match_42.pgn.tar.gz'']
   \<and> downloads (fst (download_match example_lib third_url_serves entry42 world42))
        ''match_42.pgn.tar.gz'' = Some archive_single
   \<and> map download_status
        (matches (db (fst (download_match example_lib third_url_serves entry42 world42))))
        = [''success'']
   \<and> download_match example_lib (\<lambda>u. if u = ''https://storage.lczero.org/files/match_pgns/match_42.pgn'' then TimeoutError else third_url_serves u) entry42 world42
       = download_match example_lib third_url_serves entry42 world42"
proof -
  let ?urls = "url_patterns (extract_run_id (d_match_id entry42) (d_date entry42)) (d_match_id entry42)"
  let ?other = "\<lambda>u. if u = ''https://storage.lczero.org/files/match_pgns/match_42.pgn''
                    then TimeoutError else third_url_serves u"
  have urls: "?urls =
       [''https://storage.lczero.org/files/match_pgns/1/match_42.pgn.tar.gz'',
        ''https://storage.lczero.org/files/match_pgns/1/match_42.pgn'',
        ''https://storage.lczero.org/files/match_pgns/match_42.pgn.tar.gz'',
        ''https://storage.lczero.org/files/match_pgns/match_42.pgn'']"
    by code_simp
  have k: "2 < length ?urls" by (simp add: urls)
  have g: "third_url_serves (?urls ! 2) = Response 200 archive_single"
    by (simp add: urls third_url_serves_def)
  have v: "validate_pgn_content example_lib archive_single (d_pgn_filename entry42)"
    by code_simp
  have g0: "third_url_serves (?urls ! 0) = Response 404 []"
    and g1: "third_url_serves (?urls ! 1) = Response 404 []"
    by (simp_all add: urls third_url_serves_def)
  have rej: "\<forall>j<2. \<forall>c. third_url_serves (?urls ! j) = Response 200 c
                \<longrightarrow> \<not> validate_pgn_content example_lib c (d_pgn_filename entry42)"
  proof (intro allI impI)
    fix j :: nat and c assume "j < 2" "third_url_serves (?urls ! j) = Response 200 c"
    moreover from \<open>j < 2\<close> have "j = 0 \<or> j = 1" by auto
    ultimately show "\<not> validate_pgn_content example_lib c (d_pgn_filename entry42)"
      using g0 g1 by auto
  qed
  have same: "\<forall>j\<le>2. ?other (?urls ! j) = third_url_serves (?urls ! j)"
  proof (intro allI impI)
    fix j :: nat assume "j \<le> 2"
    then have "j = 0 \<or> j = 1 \<or> j = 2" by auto
    then show "?other (?urls ! j) = third_url_serves (?urls ! j)"
      by (auto simp: urls)
  qed
  note t = download_match_first_accepted_wins [OF refl k g v rej, where w = world42 and get' = ?other]
  from t same have r: "download_match example_lib third_url_serves entry42 world42 =
           (world42\<lparr>requests := requests world42 @ take (Suc 2) ?urls,
              downloads := (downloads world42)(d_pgn_filename entry42 \<mapsto> archive_single),
              db := update_download_status (db world42) (d_match_id entry42) ''success''
                      (''Downloaded from '' @ ?urls ! 2)\<rparr>,
            True)"
    and o: "download_match example_lib ?other entry42 world42
       = download_match example_lib third_url_serves entry42 world42"
    by blast+
  have s: "map download_status (matches (update_download_status (db world42) (d_match_id entry42)
             ''success'' (''Downloaded from '' @ ?urls ! 2))) = [''success'']"
    by code_simp
  have q: "requests world42 = []" by (simp add: world42_def init_world_def)
  have f: "d_pgn_filename entry42 = ''match_42.pgn.tar.gz''" by (simp add: entry42_def)
  show ?thesis
    unfolding o unfolding r using s by (simp add: q f urls)
qed

lemma download_match_all_rejected:
  assumes "\<forall>u\<in>set (url_patterns (extract_run_id (d_match_id m) (d_date m)) (d_match_id m)).
             \<forall>c. get u = Response 200 c \<longrightarrow> \<not> validate_pgn_content L c (d_pgn_filename m)"
  shows "download_match L get m w =
           (w\<lparr>requests := requests w
                 @ url_patterns (extract_run_id (d_match_id m) (d_date m)) (d_match_id m),
              db := update_download_status (db w) (d_match_id m) ''failed''
                      ''All URL patterns failed''\<rparr>,
            False)"
  unfolding download_match_def Let_def
  by (simp add: try_urls_all_rejected [OF assms])

text \<open>
  Claim C1 asks for the status retry after a run in which every candidate was rejected
  while the attempts are below 3. The code records failed after the first such run (the
  lemma above, for any entry): entry 7 goes from pending to failed with one attempt, is no
  longer returned by \<^verbatim>\<open>get_pending_downloads\<close>, and the second and third run leave the
  store as it is, with one log row in all.
\<close>

theorem exhausted_entry_is_failed_at_once:
  "map download_status (matches (db world7)) = [''pending'']
   \<and> map download_status (matches (db (download_all example_lib all_malformed None world7)))
       = [''failed'']
   \<and> map download_attempts (matches (db (download_all example_lib all_malformed None world7)))
       = [1]
   \<and> get_pending_downloads (db (download_all example_lib all_malformed None world7)) None = []
   \<and> db (download_all example_lib all_malformed None
          (download_all example_lib all_malformed None world7))
       = db (download_all example_lib all_malformed None world7)
   \<and> db (download_all example_lib all_malformed None
          (download_all example_lib all_malformed None
             (download_all example_lib all_malformed None world7)))
       = db (download_all example_lib all_malformed None world7)
   \<and> download_log (db (download_all example_lib all_malformed None
          (download_all example_lib all_malformed None
             (download_all example_lib all_malformed None world7))))
       = [\<lparr>log_match_id = 7, log_status = ''failed'',
           log_message = ''All URL patterns failed''\<rparr>]"
  by code_simp

section \<open>The processor\<close>

subsection \<open>The version of a date\<close>

lemma version_loop_naive:
  "tzinfo d = None \<Longrightarrow>
   version_loop d tbl = Inr (case find (reaches d) tbl of None \<Rightarrow> ''v0.21.0'' | Some (vd, v) \<Rightarrow> v)"
  by (induction tbl) (auto simp: ge_naive_def reaches_def)

lemma version_loop_aware:
  "tzinfo d = Some off \<Longrightarrow> tbl \<noteq> [] \<Longrightarrow> version_loop d tbl = Inl TypeError"
  by (cases tbl) (auto simp: ge_naive_def)

lemma find_Some_in_set: "find P xs = Some x \<Longrightarrow> x \<in> set xs"
  by (induction xs) (auto split: if_splits)

lemma version_loop_range:
  "version_loop d tbl = Inr v \<Longrightarrow> v \<in> set (''v0.21.0'' # map snd tbl)"
proof (induction tbl)
  case Nil
  then show ?case by simp
next
  case (Cons e tbl)
  obtain vd x where e: "e = (vd, x)" by (cases e)
  from Cons show ?case
    by (auto simp: e split: sum.splits if_splits)
qed

lemma get_lc0_version_range:
  "get_lc0_version L s \<in> set (''v0.21.0'' # map snd VERSION_MAP)"
proof (cases "lc0_version_try L s")
  case (Inl e)
  then show ?thesis by (simp add: get_lc0_version_def)
next
  case (Inr v)
  then have "\<exists>d. version_loop d VERSION_MAP = Inr v"
    by (auto simp: lc0_version_try_def split: list.splits option.splits)
  then obtain d where "version_loop d VERSION_MAP = Inr v" by blast
  from version_loop_range [OF this] Inr show ?thesis by (simp add: get_lc0_version_def)
qed

lemma version_no_nl: "nl \<notin> set (get_lc0_version L s)"
proof -
  have "\<forall>v\<in>set (''v0.21.0'' # map snd VERSION_MAP). nl \<notin> set v"
    by (simp add: VERSION_MAP_def nl_def)
  with get_lc0_version_range [of L s] show ?thesis by blast
qed

lemma VERSION_MAP_nonempty: "VERSION_MAP \<noteq> []"
  by (simp add: VERSION_MAP_def)

lemma VERSION_MAP_last: "(mk_date 1970 1 1, ''v0.23.0'') \<in> set VERSION_MAP"
  by (simp add: VERSION_MAP_def)

lemma VERSION_MAP_versions: "(vd, v) \<in> set VERSION_MAP \<Longrightarrow> v \<noteq> ''v0.21.0''"
  by (auto simp: VERSION_MAP_def)

lemma VERSION_MAP_thresholds:
  "(vd, v) \<in> set VERSION_MAP \<Longrightarrow> dt_key (mk_date 1970 1 1) \<le> dt_key vd"
  by (auto simp: VERSION_MAP_def mk_date_def dt_key_def)

lemma find_reaches_some:
  assumes "dt_key (mk_date 1970 1 1) \<le> dt_key d"
  shows "\<exists>vd v. find (reaches d) VERSION_MAP = Some (vd, v) \<and> (vd, v) \<in> set VERSION_MAP"
proof (cases "find (reaches d) VERSION_MAP")
  case None
  with VERSION_MAP_last assms show ?thesis
    by (auto simp: find_None_iff reaches_def)
next
  case (Some e)
  then show ?thesis by (cases e) (auto dest: find_Some_in_set)
qed

lemma find_reaches_none:
  "find (reaches d) VERSION_MAP = None \<longleftrightarrow> dt_key d < dt_key (mk_date 1970 1 1)"
proof
  assume "find (reaches d) VERSION_MAP = None"
  with VERSION_MAP_last show "dt_key d < dt_key (mk_date 1970 1 1)"
    by (auto simp: find_None_iff reaches_def not_le)
next
  assume lt: "dt_key d < dt_key (mk_date 1970 1 1)"
  have "\<not> reaches d e" if "e \<in> set VERSION_MAP" for e
    using VERSION_MAP_thresholds [of "fst e" "snd e"] that lt by (auto simp: reaches_def)
  then show "find (reaches d) VERSION_MAP = None"
    by (auto simp: find_None_iff)
qed


text \<open>
  The cases of \<^verbatim>\<open>_get_lc0_version\<close>. Its value is \<^verbatim>\<open>v0.21.0\<close> or a version of the table.
  A date with no token or whose first token does not parse gives \<^verbatim>\<open>v0.21.0\<close>. A parsed
  date that carries a UTC offset raises \<^verbatim>\<open>TypeError\<close> at the first comparison and gives
  \<^verbatim>\<open>v0.21.0\<close> through the handler. A parsed date without an offset, on or after
  1970-01-01, gets the version of the first entry of the table whose threshold it reaches,
  never \<^verbatim>\<open>v0.21.0\<close>; before 1970-01-01 it gets \<^verbatim>\<open>v0.21.0\<close>. The \<^verbatim>\<open>return\<close> after the loop
  is reached exactly by the parsed dates without an offset that are before 1970-01-01.
\<close>

lemma get_lc0_version_cases:
  "get_lc0_version L s \<in> set (''v0.21.0'' # map snd VERSION_MAP)
   \<and> (py_split s = [] \<longrightarrow> get_lc0_version L s = ''v0.21.0'')
   \<and> (py_split s = tok # rest \<and> fromisoformat L tok = None
        \<longrightarrow> get_lc0_version L s = ''v0.21.0'')
   \<and> (py_split s = tok # rest \<and> fromisoformat L tok = Some d \<and> tzinfo d \<noteq> None
        \<longrightarrow> lc0_version_try L s = Inl TypeError \<and> get_lc0_version L s = ''v0.21.0'')
   \<and> (py_split s = tok # rest \<and> fromisoformat L tok = Some d \<and> tzinfo d = None
        \<and> dt_key (mk_date 1970 1 1) \<le> dt_key d
        \<longrightarrow> (\<exists>vd v. find (\<lambda>(vd, v). dt_key vd \<le> dt_key d) VERSION_MAP = Some (vd, v)
                   \<and> get_lc0_version L s = v)
            \<and> get_lc0_version L s \<noteq> ''v0.21.0'')
   \<and> (py_split s = tok # rest \<and> fromisoformat L tok = Some d \<and> tzinfo d = None
        \<and> dt_key d < dt_key (mk_date 1970 1 1)
        \<longrightarrow> get_lc0_version L s = ''v0.21.0'')
   \<and> (lc0_version_try L s = Inr ''v0.21.0'' \<longleftrightarrow>
        (\<exists>t ts dd. py_split s = t # ts \<and> fromisoformat L t = Some dd \<and> tzinfo dd = None
           \<and> dt_key dd < dt_key (mk_date 1970 1 1)))"
proof -
  have r: "(\<lambda>(vd, v). dt_key vd \<le> dt_key d) = reaches d" for d
    by (rule ext) (auto simp: reaches_def)
  have naive: "lc0_version_try L s =
      Inr (case find (reaches dd) VERSION_MAP of None \<Rightarrow> ''v0.21.0'' | Some (vd, v) \<Rightarrow> v)"
    if "py_split s = t # ts" "fromisoformat L t = Some dd" "tzinfo dd = None" for t ts dd
    using that by (simp add: lc0_version_try_def version_loop_naive)
  have aware: "lc0_version_try L s = Inl TypeError"
    if "py_split s = t # ts" "fromisoformat L t = Some dd" "tzinfo dd \<noteq> None" for t ts dd
    using that VERSION_MAP_nonempty by (auto simp: lc0_version_try_def version_loop_aware)
  have a: "get_lc0_version L s \<in> set (''v0.21.0'' # map snd VERSION_MAP)"
  proof (cases "py_split s")
    case Nil
    then show ?thesis by (simp add: get_lc0_version_def lc0_version_try_def)
  next
    case (Cons t ts)
    show ?thesis
    proof (cases "fromisoformat L t")
      case None
      with Cons show ?thesis by (simp add: get_lc0_version_def lc0_version_try_def)
    next
      case (Some dd)
      show ?thesis
      proof (cases "tzinfo dd")
        case None
        show ?thesis
        proof (cases "find (reaches dd) VERSION_MAP")
          case nf: None
          with naive [OF Cons Some None] show ?thesis by (simp add: get_lc0_version_def)
        next
          case (Some e)
          then have "e \<in> set VERSION_MAP" by (rule find_Some_in_set)
          then have "snd e \<in> snd ` set VERSION_MAP" by (rule imageI)
          with naive [OF Cons \<open>fromisoformat L t = Some dd\<close> None] Some show ?thesis
            by (cases e) (simp add: get_lc0_version_def)
        qed
      next
        case (Some off)
        with aware [OF Cons \<open>fromisoformat L t = Some dd\<close>] show ?thesis
          by (simp add: get_lc0_version_def)
      qed
    qed
  qed
  have b: "py_split s = [] \<longrightarrow> get_lc0_version L s = ''v0.21.0''"
    by (simp add: get_lc0_version_def lc0_version_try_def)
  have c: "py_split s = tok # rest \<and> fromisoformat L tok = None
        \<longrightarrow> get_lc0_version L s = ''v0.21.0''"
    by (simp add: get_lc0_version_def lc0_version_try_def)
  have d: "py_split s = tok # rest \<and> fromisoformat L tok = Some d \<and> tzinfo d \<noteq> None
        \<longrightarrow> lc0_version_try L s = Inl TypeError \<and> get_lc0_version L s = ''v0.21.0''"
    using aware [of tok rest d] by (auto simp: get_lc0_version_def)
  have e: "py_split s = tok # rest \<and> fromisoformat L tok = Some d \<and> tzinfo d = None
        \<and> dt_key (mk_date 1970 1 1) \<le> dt_key d
        \<longrightarrow> (\<exists>vd v. find (\<lambda>(vd, v). dt_key vd \<le> dt_key d) VERSION_MAP = Some (vd, v)
                   \<and> get_lc0_version L s = v)
            \<and> get_lc0_version L s \<noteq> ''v0.21.0''"
  proof (intro impI, elim conjE)
    assume h: "py_split s = tok # rest" "fromisoformat L tok = Some d" "tzinfo d = None"
      "dt_key (mk_date 1970 1 1) \<le> dt_key d"
    from find_reaches_some [OF h(4)] obtain vd v where
      f: "find (reaches d) VERSION_MAP = Some (vd, v)" "(vd, v) \<in> set VERSION_MAP" by blast
    from naive [OF h(1-3)] f(1) have g: "get_lc0_version L s = v"
      by (simp add: get_lc0_version_def)
    from f(2) have "v \<noteq> ''v0.21.0''" by (rule VERSION_MAP_versions)
    with f(1) g show "(\<exists>vd v. find (\<lambda>(vd, v). dt_key vd \<le> dt_key d) VERSION_MAP = Some (vd, v)
                   \<and> get_lc0_version L s = v)
            \<and> get_lc0_version L s \<noteq> ''v0.21.0''"
      by (simp add: r)
  qed
  have f: "lc0_version_try L s = Inr ''v0.21.0'' \<longleftrightarrow>
        (\<exists>t ts dd. py_split s = t # ts \<and> fromisoformat L t = Some dd \<and> tzinfo dd = None
           \<and> dt_key dd < dt_key (mk_date 1970 1 1))"
  proof
    assume l: "lc0_version_try L s = Inr ''v0.21.0''"
    then obtain t ts where sp: "py_split s = t # ts"
      by (cases "py_split s") (auto simp: lc0_version_try_def)
    with l obtain dd where p: "fromisoformat L t = Some dd"
      by (cases "fromisoformat L t") (auto simp: lc0_version_try_def)
    have nz: "tzinfo dd = None"
    proof (rule ccontr)
      assume "tzinfo dd \<noteq> None"
      from aware [OF sp p this] l show False by simp
    qed
    have "find (reaches dd) VERSION_MAP = None"
    proof (cases "find (reaches dd) VERSION_MAP")
      case None
      then show ?thesis .
    next
      case (Some e)
      then have "e \<in> set VERSION_MAP" by (rule find_Some_in_set)
      then have "snd e \<noteq> ''v0.21.0''" using VERSION_MAP_versions [of "fst e" "snd e"] by simp
      with naive [OF sp p nz] l Some show ?thesis by (cases e) simp
    qed
    then have "dt_key dd < dt_key (mk_date 1970 1 1)" by (simp add: find_reaches_none)
    with sp p nz show "\<exists>t ts dd. py_split s = t # ts \<and> fromisoformat L t = Some dd
        \<and> tzinfo dd = None \<and> dt_key dd < dt_key (mk_date 1970 1 1)" by blast
  next
    assume "\<exists>t ts dd. py_split s = t # ts \<and> fromisoformat L t = Some dd \<and> tzinfo dd = None
           \<and> dt_key dd < dt_key (mk_date 1970 1 1)"
    then obtain t ts dd where h: "py_split s = t # ts" "fromisoformat L t = Some dd"
      "tzinfo dd = None" "dt_key dd < dt_key (mk_date 1970 1 1)" by blast
    from h(4) have "find (reaches dd) VERSION_MAP = None" by (simp add: find_reaches_none)
    with naive [OF h(1-3)] show "lc0_version_try L s = Inr ''v0.21.0''" by simp
  qed
  have g: "py_split s = tok # rest \<and> fromisoformat L tok = Some d \<and> tzinfo d = None
        \<and> dt_key d < dt_key (mk_date 1970 1 1)
        \<longrightarrow> get_lc0_version L s = ''v0.21.0''"
  proof (intro impI, elim conjE)
    assume h: "py_split s = tok # rest" "fromisoformat L tok = Some d" "tzinfo d = None"
      "dt_key d < dt_key (mk_date 1970 1 1)"
    from h(4) have "find (reaches d) VERSION_MAP = None" by (simp add: find_reaches_none)
    with naive [OF h(1-3)] show "get_lc0_version L s = ''v0.21.0''"
      by (simp add: get_lc0_version_def)
  qed
  from a b c d e g f show ?thesis by blast
qed


text \<open>A date of March 2021 without an offset gets the version of the entry of 2021-01-01.\<close>

lemma get_lc0_version_march_2021:
  "py_split ''2021-03-15 10:00:00'' = [''2021-03-15'', ''10:00:00'']
   \<and> fromisoformat example_lib ''2021-03-15'' = Some (mk_date 2021 3 15)
   \<and> tzinfo (mk_date 2021 3 15) = None
   \<and> dt_key (mk_date 1970 1 1) \<le> dt_key (mk_date 2021 3 15)
   \<and> find (\<lambda>(vd, v). dt_key vd \<le> dt_key (mk_date 2021 3 15)) VERSION_MAP
       = Some (mk_date 2021 1 1, ''v0.27.0'')
   \<and> get_lc0_version example_lib ''2021-03-15 10:00:00'' = ''v0.27.0''"
proof -
  have a: "py_split ''2021-03-15 10:00:00'' = [''2021-03-15'', ''10:00:00'']" by code_simp
  have b: "fromisoformat example_lib ''2021-03-15'' = Some (mk_date 2021 3 15)" by code_simp
  have c: "tzinfo (mk_date 2021 3 15) = None" by (simp add: mk_date_def)
  have d: "dt_key (mk_date 1970 1 1) \<le> dt_key (mk_date 2021 3 15)" by code_simp
  have e: "find (\<lambda>(vd, v). dt_key vd \<le> dt_key (mk_date 2021 3 15)) VERSION_MAP
       = Some (mk_date 2021 1 1, ''v0.27.0'')" by code_simp
  from get_lc0_version_cases [of example_lib "''2021-03-15 10:00:00''" "''2021-03-15''"
      "[''10:00:00'']" "mk_date 2021 3 15"] a b c d
  have "\<exists>vd v. find (\<lambda>(vd, v). dt_key vd \<le> dt_key (mk_date 2021 3 15)) VERSION_MAP
           = Some (vd, v)
         \<and> get_lc0_version example_lib ''2021-03-15 10:00:00'' = v"
    by blast
  with e have "get_lc0_version example_lib ''2021-03-15 10:00:00'' = ''v0.27.0''" by auto
  with a b c d e show ?thesis by blast
qed

text \<open>A date of the last day of 1969 without an offset gets \<^verbatim>\<open>v0.21.0\<close>.\<close>

lemma get_lc0_version_1969:
  "get_lc0_version example_lib ''1969-12-31'' = ''v0.21.0''
   \<and> lc0_version_try example_lib ''1969-12-31'' = Inr ''v0.21.0''"
  by code_simp

text \<open>
  Claim C10 asks that every date that parses and is on or after 1970-01-01 get the
  version of the first entry of the table whose threshold it reaches, and that
  \<^verbatim>\<open>v0.21.0\<close> be kept for dates that do not parse or are before 1970-01-01. The thresholds
  of the table carry no offset, and Python refuses to compare a date with an offset to a
  date without one: \<^verbatim>\<open>date >= version_date\<close> raises \<^verbatim>\<open>TypeError\<close>, and the handler written
  for dates that do not parse returns \<^verbatim>\<open>v0.21.0\<close>. The date \<^verbatim>\<open>2021-03-15T10:00:00+00:00\<close>
  parses, as 15 March 2021 at offset 0, and gets \<^verbatim>\<open>v0.21.0\<close>, which is no version of the
  table; the same date written without the offset gets \<^verbatim>\<open>v0.27.0\<close>, the version of the
  entry of 2021-01-01, and \<^verbatim>\<open>_organize_by_month\<close> files a text of the date with the offset
  under March 2021.
\<close>

theorem offset_date_gets_fallback_version:
  "fromisoformat example_lib ''2021-03-15T10:00:00+00:00'' =
     Some \<lparr>year = 2021, month = 3, day = 15, hour = 10, minute = 0, second = 0,
           microsecond = 0, tzinfo = Some 0\<rparr>
   \<and> lc0_version_try example_lib ''2021-03-15T10:00:00+00:00'' = Inl TypeError
   \<and> get_lc0_version example_lib ''2021-03-15T10:00:00+00:00'' = ''v0.21.0''
   \<and> get_lc0_version example_lib ''2021-03-15T10:00:00+00:00'' \<notin> set (map snd VERSION_MAP)
   \<and> get_lc0_version example_lib ''2021-03-15T10:00:00'' = ''v0.27.0''
   \<and> find (\<lambda>(vd, v). dt_key vd \<le> dt_key (mk_date 2021 3 15)) VERSION_MAP
       = Some (mk_date 2021 1 1, ''v0.27.0'')
   \<and> organize_by_month example_lib ''2021-03-15T10:00:00+00:00'' ''1. e4 *'' Map.empty
       ''processed/2021/03/lc0_matches_2021_03.pgn'' = Some ''1. e4 *\<newline>\<newline>''"
  by code_simp


subsection \<open>Rewriting a game text\<close>

lemma split_on_nonempty: "split_on c s \<noteq> []"
  by (induction s) (auto split: list.splits)

lemma split_on_no_sep: "l \<in> set (split_on c s) \<Longrightarrow> c \<notin> set l"
proof (induction s arbitrary: l)
  case Nil
  then show ?case by simp
next
  case (Cons x s)
  show ?case
  proof (cases "x = c")
    case True
    with Cons show ?thesis by auto
  next
    case False
    obtain h t where ht: "split_on c s = h # t"
      using split_on_nonempty [of c s] by (cases "split_on c s") auto
    with Cons.prems False have "l = x # h \<or> l \<in> set t" by auto
    with Cons.IH [of h] Cons.IH [of l] ht False show ?thesis by auto
  qed
qed

lemma split_on_append_sep:
  "c \<notin> set l \<Longrightarrow> split_on c (l @ c # s) = l # split_on c s"
  by (induction l) auto

lemma split_on_no_sep_id: "c \<notin> set l \<Longrightarrow> split_on c l = [l]"
  by (induction l) auto

lemma split_join:
  "ls \<noteq> [] \<Longrightarrow> \<forall>l\<in>set ls. c \<notin> set l \<Longrightarrow> split_on c (join_on c ls) = ls"
proof (induction c ls rule: join_on.induct)
  case (1 sep)
  then show ?case by simp
next
  case (2 sep l)
  then show ?case by (simp add: split_on_no_sep_id)
next
  case (3 sep l l' ls)
  then show ?case by (simp add: split_on_append_sep)
qed

lemma startswith_first_line:
  "c \<notin> set p \<Longrightarrow> startswith s p \<Longrightarrow> \<exists>l ls. split_on c s = l # ls \<and> startswith l p"
proof (induction p arbitrary: s)
  case Nil
  then show ?case using split_on_nonempty [of c s]
    by (cases "split_on c s") (auto simp: startswith_def)
next
  case (Cons a p)
  from Cons.prems obtain s' where s: "s = a # s'" "startswith s' p"
    by (cases s) (auto simp: startswith_def)
  from Cons.prems have "c \<notin> set p" "a \<noteq> c" by auto
  from Cons.IH [OF this(1) s(2)] obtain l ls where "split_on c s' = l # ls" "startswith l p"
    by blast
  with s \<open>a \<noteq> c\<close> show ?case by (auto simp: startswith_def)
qed

lemma split_ws_tokens:
  "\<forall>c\<in>set cur. \<not> isspace c \<Longrightarrow> t \<in> set (split_ws cur s) \<Longrightarrow> \<forall>c\<in>set t. \<not> isspace c"
proof (induction s arbitrary: cur)
  case Nil
  then show ?case by (auto split: if_splits)
next
  case (Cons x s)
  show ?case
  proof (cases "isspace x")
    case True
    with Cons.prems(2) have "t = cur \<or> t \<in> set (split_ws [] s)"
      by (auto split: if_splits)
    then show ?thesis
    proof
      assume "t = cur" with Cons.prems(1) show ?thesis by simp
    next
      assume "t \<in> set (split_ws [] s)"
      with Cons.IH [of "[]"] show ?thesis by simp
    qed
  next
    case False
    with Cons.prems have "\<forall>c\<in>set (cur @ [x]). \<not> isspace c" "t \<in> set (split_ws (cur @ [x]) s)"
      by auto
    then show ?thesis by (rule Cons.IH)
  qed
qed

lemma py_split_token_no_nl: "py_split s = tok # rest \<Longrightarrow> nl \<notin> set tok"
proof -
  assume a: "py_split s = tok # rest"
  have "isspace nl" by (simp add: isspace_def nl_def)
  moreover have "\<forall>c\<in>set tok. \<not> isspace c"
    using split_ws_tokens [of "[]" tok s] a by (simp add: py_split_def)
  ultimately show ?thesis by auto
qed

lemma digits_no_nl: "nl \<notin> set (digits n)"
  using digits_chars [of n] by (auto simp: nl_def)

lemma str_int_no_nl: "nl \<notin> set (str_int i)"
  using digits_no_nl [of "nat i"] digits_no_nl [of "nat (- i)"]
  by (auto simp: str_int_def nl_def)

lemma prefix_exclusive:
  "startswith l ''[Event'' \<Longrightarrow> \<not> startswith l ''[White''"
  "startswith l ''[Event'' \<Longrightarrow> \<not> startswith l ''[Black''"
  "startswith l ''[White'' \<Longrightarrow> \<not> startswith l ''[Black''"
  by (auto simp: startswith_def)

lemma process_lines_event_in_headers:
  "startswith l ''[Event'' \<Longrightarrow>
   process_lines v d mid all True (l # ls) =
     l # (if \<not> list_ex (\<lambda>l. contains l ''[Date'') (take 20 all) then [date_header d] else [])
     @ process_lines v d mid all True ls"
  by simp

lemma process_lines_event_later:
  "startswith l ''[Event'' \<Longrightarrow>
   process_lines v d mid all False (l # ls) = event_header mid # process_lines v d mid all False ls"
  by (simp add: prefix_exclusive)

lemma process_lines_white:
  "startswith l ''[White'' \<Longrightarrow>
   process_lines v d mid all inh (l # ls) = white_header v # process_lines v d mid all inh ls"
  using prefix_exclusive(1) [of l] by auto

lemma process_lines_black:
  "startswith l ''[Black'' \<Longrightarrow>
   process_lines v d mid all inh (l # ls) = black_header v # process_lines v d mid all inh ls"
  using prefix_exclusive(2,3) [of l] by auto

lemma process_lines_other:
  "\<not> startswith l ''[Event'' \<Longrightarrow> \<not> startswith l ''[White'' \<Longrightarrow> \<not> startswith l ''[Black'' \<Longrightarrow>
   process_lines v d mid all inh (l # ls) =
     l # process_lines v d mid all (if inh \<and> strip l = [] then False else inh) ls"
  by simp

lemma header_facts:
  "\<not> identity_line (date_header d)"
  "\<not> identity_line (event_header mid)"
  "identity_line (white_header v)"
  "identity_line (black_header v)"
  "startswith (white_header v) ''[White''"
  "\<not> startswith (black_header v) ''[White''"
  by (simp_all add: identity_line_def startswith_def date_header_def event_header_def
        white_header_def black_header_def)

lemma event_not_identity: "startswith l ''[Event'' \<Longrightarrow> \<not> identity_line l"
  by (auto simp: identity_line_def startswith_def)

lemma process_lines_identity:
  "filter identity_line (process_lines v d mid all inh ls)
   = map (canonical_header v) (filter identity_line ls)"
proof (induction ls arbitrary: inh)
  case Nil
  then show ?case by simp
next
  case (Cons l ls)
  consider (ev) "startswith l ''[Event''" | (wh) "startswith l ''[White''"
    | (bl) "startswith l ''[Black''"
    | (other) "\<not> startswith l ''[Event''" "\<not> startswith l ''[White''" "\<not> startswith l ''[Black''"
    by blast
  then show ?case
  proof cases
    case ev
    show ?thesis
    proof (cases inh)
      case True
      with ev event_not_identity [OF ev] Cons.IH [of True] show ?thesis
        by (simp only: process_lines_event_in_headers)
           (simp add: header_facts del: process_lines.simps)
    next
      case False
      with ev event_not_identity [OF ev] Cons.IH [of False] show ?thesis
        by (simp only: process_lines_event_later)
           (simp add: header_facts del: process_lines.simps)
    qed
  next
    case wh
    then have "identity_line l" by (simp add: identity_line_def)
    with wh Cons.IH [of inh] show ?thesis
      by (simp only: process_lines_white)
         (simp add: header_facts canonical_header_def del: process_lines.simps)
  next
    case bl
    then have "identity_line l" "\<not> startswith l ''[White''"
      using prefix_exclusive(3) [of l] by (auto simp: identity_line_def)
    with bl Cons.IH [of inh] show ?thesis
      by (simp only: process_lines_black)
         (simp add: header_facts canonical_header_def del: process_lines.simps)
  next
    case other
    then have "\<not> identity_line l" by (simp add: identity_line_def)
    with Cons.IH [of "if inh \<and> strip l = [] then False else inh"] show ?thesis
      by (simp only: process_lines_other [OF other])
         (simp del: process_lines.simps)
  qed
qed

lemma header_no_nl:
  "nl \<notin> set x \<Longrightarrow> nl \<notin> set (date_header x)"
  "nl \<notin> set x \<Longrightarrow> nl \<notin> set (white_header x)"
  "nl \<notin> set x \<Longrightarrow> nl \<notin> set (black_header x)"
  "nl \<notin> set (event_header mid)"
  using str_int_no_nl [of mid]
  by (simp_all add: date_header_def white_header_def black_header_def event_header_def nl_def)

lemma process_lines_no_nl:
  assumes "nl \<notin> set v" "nl \<notin> set d"
  shows "\<forall>l\<in>set ls. nl \<notin> set l \<Longrightarrow> \<forall>l\<in>set (process_lines v d mid all inh ls). nl \<notin> set l"
proof (induction ls arbitrary: inh)
  case Nil
  then show ?case by simp
next
  case (Cons l ls)
  from Cons.prems have l: "nl \<notin> set l" and ls: "\<forall>l\<in>set ls. nl \<notin> set l" by simp_all
  note ih = Cons.IH [OF ls]
  note hd = header_no_nl(1) [OF assms(2)]
  note hw = header_no_nl(2) [OF assms(1)]
  note hb = header_no_nl(3) [OF assms(1)]
  note he = header_no_nl(4) [of mid]
  consider (ev) "startswith l ''[Event''" | (wh) "startswith l ''[White''"
    | (bl) "startswith l ''[Black''"
    | (other) "\<not> startswith l ''[Event''" "\<not> startswith l ''[White''" "\<not> startswith l ''[Black''"
    by blast
  then show ?case
  proof cases
    case ev
    show ?thesis
    proof (cases inh)
      case True
      with ih [of True] l hd show ?thesis
        by (simp only: process_lines_event_in_headers [OF ev])
           (auto simp del: process_lines.simps)
    next
      case False
      with ih [of False] l he show ?thesis
        by (simp only: process_lines_event_later [OF ev])
           (simp del: process_lines.simps)
    qed
  next
    case wh
    with ih [of inh] hw show ?thesis
      by (simp only: process_lines_white [OF wh]) (simp del: process_lines.simps)
  next
    case bl
    with ih [of inh] hb show ?thesis
      by (simp only: process_lines_black [OF bl]) (simp del: process_lines.simps)
  next
    case other
    with ih [of "if inh \<and> strip l = [] then False else inh"] l show ?thesis
      by (simp only: process_lines_other [OF other]) (simp del: process_lines.simps)
  qed
qed

lemma process_lines_nonempty: "ls \<noteq> [] \<Longrightarrow> process_lines v d mid all inh ls \<noteq> []"
  by (cases ls) auto

lemma header_not_plain:
  "\<not> plain_line (white_header v)"
  "\<not> plain_line (black_header v)"
  "\<not> plain_line (event_header mid)"
  by (simp_all add: plain_line_def startswith_def white_header_def black_header_def
        event_header_def)

lemma process_lines_plain:
  "filter (\<lambda>l. plain_line l \<and> l \<noteq> date_header d) (process_lines v d mid all inh ls)
   = filter (\<lambda>l. plain_line l \<and> l \<noteq> date_header d) ls"
proof (induction ls arbitrary: inh)
  case Nil
  then show ?case by simp
next
  case (Cons l ls)
  consider (ev) "startswith l ''[Event''" | (wh) "startswith l ''[White''"
    | (bl) "startswith l ''[Black''"
    | (other) "\<not> startswith l ''[Event''" "\<not> startswith l ''[White''" "\<not> startswith l ''[Black''"
    by blast
  then show ?case
  proof cases
    case ev
    then have np: "\<not> plain_line l" by (simp add: plain_line_def)
    show ?thesis
    proof (cases inh)
      case True
      with np Cons.IH [of True] show ?thesis
        by (simp only: process_lines_event_in_headers [OF ev])
           (simp del: process_lines.simps)
    next
      case False
      with np Cons.IH [of False] show ?thesis
        by (simp only: process_lines_event_later [OF ev])
           (simp add: header_not_plain del: process_lines.simps)
    qed
  next
    case wh
    then have "\<not> plain_line l" by (simp add: plain_line_def)
    with Cons.IH [of inh] show ?thesis
      by (simp only: process_lines_white [OF wh])
         (simp add: header_not_plain del: process_lines.simps)
  next
    case bl
    then have "\<not> plain_line l" by (simp add: plain_line_def)
    with Cons.IH [of inh] show ?thesis
      by (simp only: process_lines_black [OF bl])
         (simp add: header_not_plain del: process_lines.simps)
  next
    case other
    with Cons.IH [of "if inh \<and> strip l = [] then False else inh"] show ?thesis
      by (simp only: process_lines_other [OF other]) (simp del: process_lines.simps)
  qed
qed

lemma process_lines_dated:
  assumes "list_ex (\<lambda>l. contains l ''[Date'') (take 20 all)"
  shows "length (process_lines v d mid all inh ls) = length ls
         \<and> (\<forall>i<length ls. plain_line (ls ! i) \<longrightarrow> process_lines v d mid all inh ls ! i = ls ! i)"
proof (induction ls arbitrary: inh)
  case Nil
  then show ?case by simp
next
  case (Cons l ls)
  consider (ev) "startswith l ''[Event''" | (wh) "startswith l ''[White''"
    | (bl) "startswith l ''[Black''"
    | (other) "\<not> startswith l ''[Event''" "\<not> startswith l ''[White''" "\<not> startswith l ''[Black''"
    by blast
  then show ?case
  proof cases
    case ev
    then have np: "\<not> plain_line l" by (simp add: plain_line_def)
    show ?thesis
    proof (cases inh)
      case True
      with np Cons.IH [of True] assms show ?thesis
        by (simp only: process_lines_event_in_headers [OF ev])
           (auto simp: nth_Cons' simp del: process_lines.simps)
    next
      case False
      with np Cons.IH [of False] show ?thesis
        by (simp only: process_lines_event_later [OF ev])
           (auto simp: nth_Cons' simp del: process_lines.simps)
    qed
  next
    case wh
    then have "\<not> plain_line l" by (simp add: plain_line_def)
    with Cons.IH [of inh] show ?thesis
      by (simp only: process_lines_white [OF wh])
         (auto simp: nth_Cons' simp del: process_lines.simps)
  next
    case bl
    then have "\<not> plain_line l" by (simp add: plain_line_def)
    with Cons.IH [of inh] show ?thesis
      by (simp only: process_lines_black [OF bl])
         (auto simp: nth_Cons' simp del: process_lines.simps)
  next
    case other
    with Cons.IH [of "if inh \<and> strip l = [] then False else inh"] show ?thesis
      by (simp only: process_lines_other [OF other])
         (auto simp: nth_Cons' simp del: process_lines.simps)
  qed
qed

lemma process_pgn_content_ok:
  "py_split date_str = tok # rest \<Longrightarrow>
   process_pgn_content L text date_str mid =
     Inr (join_on nl (process_lines (get_lc0_version L date_str) tok mid
                        (split_on nl text) True (split_on nl text)))"
  by (simp add: process_pgn_content_def Let_def)

lemma lines_of_processed:
  assumes "py_split date_str = tok # rest"
  shows "split_on nl (join_on nl (process_lines (get_lc0_version L date_str) tok mid
                        (split_on nl text) True (split_on nl text)))
         = process_lines (get_lc0_version L date_str) tok mid
                        (split_on nl text) True (split_on nl text)"
proof (rule split_join)
  show "process_lines (get_lc0_version L date_str) tok mid
                        (split_on nl text) True (split_on nl text) \<noteq> []"
    by (rule process_lines_nonempty) (rule split_on_nonempty)
  have "\<forall>l\<in>set (split_on nl text). nl \<notin> set l" by (auto dest: split_on_no_sep)
  from process_lines_no_nl [OF version_no_nl py_split_token_no_nl [OF assms] this]
  show "\<forall>l\<in>set (process_lines (get_lc0_version L date_str) tok mid
                        (split_on nl text) True (split_on nl text)). nl \<notin> set l" .
qed

text \<open>
  What \<^verbatim>\<open>_process_pgn_content\<close> does to the identity lines and to the plain lines. When the
  entry's date has no token it raises \<^verbatim>\<open>IndexError\<close>. Otherwise it returns a text in which
  \<^item> the lines that start with \<^verbatim>\<open>[White\<close> or \<^verbatim>\<open>[Black\<close>, taken by themselves, are the
    canonical headers, for the version of the entry's date, of the such lines of the
    source, in the same order;
  \<^item> the lines that start with none of \<^verbatim>\<open>[Event\<close>, \<^verbatim>\<open>[White\<close>, \<^verbatim>\<open>[Black\<close>, taken by
    themselves, are those of the source in the same order, apart from inserted Date
    headers: exactly so when lines equal to the Date header for the date's first token are
    left out on both sides, and exactly so, with no line inserted, when the text \<^verbatim>\<open>[Date\<close>
    occurs in the first 20 lines of the source;
  \<^item> the second line is the Date header for the date's first token, when the source starts
    with an Event line and the text \<^verbatim>\<open>[Date\<close> occurs nowhere in its first 20 lines.
  The statement says nothing of the Event lines, nor of where the lines of one kind stand
  among those of the others.
\<close>

lemma process_pgn_content_rewrites:
  "(py_split match_date = [] \<longrightarrow> process_pgn_content L text match_date mid = Inl IndexError)
   \<and> (py_split match_date = tok # rest \<longrightarrow>
       (\<exists>out. process_pgn_content L text match_date mid = Inr out
         \<and> filter identity_line (split_on nl out)
             = map (canonical_header (get_lc0_version L match_date))
                 (filter identity_line (split_on nl text))
         \<and> filter (\<lambda>l. plain_line l \<and> l \<noteq> date_header tok) (split_on nl out)
             = filter (\<lambda>l. plain_line l \<and> l \<noteq> date_header tok) (split_on nl text)
         \<and> (list_ex (\<lambda>l. contains l ''[Date'') (take 20 (split_on nl text)) \<longrightarrow>
              length (split_on nl out) = length (split_on nl text)
              \<and> (\<forall>i<length (split_on nl text). plain_line (split_on nl text ! i)
                    \<longrightarrow> split_on nl out ! i = split_on nl text ! i))
         \<and> (startswith text ''[Event''
              \<and> \<not> list_ex (\<lambda>l. contains l ''[Date'') (take 20 (split_on nl text))
             \<longrightarrow> split_on nl out ! 1 = date_header tok)))"
proof -
  have a: "py_split match_date = [] \<longrightarrow> process_pgn_content L text match_date mid = Inl IndexError"
    by (simp add: process_pgn_content_def)
  have b: "\<exists>out. process_pgn_content L text match_date mid = Inr out
         \<and> filter identity_line (split_on nl out)
             = map (canonical_header (get_lc0_version L match_date))
                 (filter identity_line (split_on nl text))
         \<and> filter (\<lambda>l. plain_line l \<and> l \<noteq> date_header tok) (split_on nl out)
             = filter (\<lambda>l. plain_line l \<and> l \<noteq> date_header tok) (split_on nl text)
         \<and> (list_ex (\<lambda>l. contains l ''[Date'') (take 20 (split_on nl text)) \<longrightarrow>
              length (split_on nl out) = length (split_on nl text)
              \<and> (\<forall>i<length (split_on nl text). plain_line (split_on nl text ! i)
                    \<longrightarrow> split_on nl out ! i = split_on nl text ! i))
         \<and> (startswith text ''[Event''
              \<and> \<not> list_ex (\<lambda>l. contains l ''[Date'') (take 20 (split_on nl text))
             \<longrightarrow> split_on nl out ! 1 = date_header tok)"
    if sp: "py_split match_date = tok # rest"
  proof -
    let ?ls = "split_on nl text"
    let ?v = "get_lc0_version L match_date"
    let ?out = "join_on nl (process_lines ?v tok mid ?ls True ?ls)"
    have pc: "process_pgn_content L text match_date mid = Inr ?out"
      using sp by (rule process_pgn_content_ok)
    have lines: "split_on nl ?out = process_lines ?v tok mid ?ls True ?ls"
      using sp by (rule lines_of_processed)
    have idl: "filter identity_line (split_on nl ?out)
           = map (canonical_header ?v) (filter identity_line ?ls)"
      by (simp only: lines process_lines_identity)
    have pl: "filter (\<lambda>l. plain_line l \<and> l \<noteq> date_header tok) (split_on nl ?out)
             = filter (\<lambda>l. plain_line l \<and> l \<noteq> date_header tok) ?ls"
      by (simp only: lines process_lines_plain)
    have dated: "list_ex (\<lambda>l. contains l ''[Date'') (take 20 ?ls) \<longrightarrow>
              length (split_on nl ?out) = length ?ls
              \<and> (\<forall>i<length ?ls. plain_line (?ls ! i) \<longrightarrow> split_on nl ?out ! i = ?ls ! i)"
      using process_lines_dated [of ?ls ?v tok mid True ?ls] by (simp only: lines) blast
    have dt: "startswith text ''[Event''
              \<and> \<not> list_ex (\<lambda>l. contains l ''[Date'') (take 20 ?ls)
             \<longrightarrow> split_on nl ?out ! 1 = date_header tok"
    proof (intro impI, elim conjE)
      assume ev: "startswith text ''[Event''"
        and nd: "\<not> list_ex (\<lambda>l. contains l ''[Date'') (take 20 ?ls)"
      have "nl \<notin> set ''[Event''" by (simp add: nl_def)
      from startswith_first_line [OF this ev] obtain l ls' where
        l: "?ls = l # ls'" "startswith l ''[Event''" by blast
      have "process_lines ?v tok mid ?ls True (l # ls')
            = l # date_header tok # process_lines ?v tok mid ?ls True ls'"
        using nd by (simp only: process_lines_event_in_headers [OF l(2)]) simp
      with l(1) have "process_lines ?v tok mid ?ls True ?ls ! 1 = date_header tok" by simp
      then show "split_on nl ?out ! 1 = date_header tok" by (simp only: lines)
    qed
    from pc idl pl dated dt show ?thesis by blast
  qed
  from a b show ?thesis by blast
qed

text \<open>
  A text of one game with no Date line, for entry 7 dated 2021-03-15: the Date header is
  the second line of the result, and the White and Black lines name \<^verbatim>\<open>Lc0 v0.27.0\<close>.
\<close>

lemma process_pgn_content_rewrites_march_2021:
  \<open>py_split ''2021-03-15 10:00:00'' = ''2021-03-15'' # [''10:00:00'']
   \<and> startswith pgn_plain ''[Event''
   \<and> \<not> list_ex (\<lambda>l. contains l ''[Date'') (take 20 (split_on nl pgn_plain))
   \<and> (\<exists>out. process_pgn_content example_lib pgn_plain ''2021-03-15 10:00:00'' 7 = Inr out
         \<and> split_on nl out ! 1 = ''[Date "2021-03-15"]''
         \<and> filter identity_line (split_on nl out)
             = [''[White "Lc0 v0.27.0"]'', ''[Black "Lc0 v0.27.0"]''])\<close>
proof -
  have a: "py_split ''2021-03-15 10:00:00'' = ''2021-03-15'' # [''10:00:00'']" by code_simp
  have b: "startswith pgn_plain ''[Event''" by code_simp
  have c: "\<not> list_ex (\<lambda>l. contains l ''[Date'') (take 20 (split_on nl pgn_plain))"
    by code_simp
  have d: \<open>date_header ''2021-03-15'' = ''[Date "2021-03-15"]''\<close> by code_simp
  have e: \<open>map (canonical_header (get_lc0_version example_lib ''2021-03-15 10:00:00''))
              (filter identity_line (split_on nl pgn_plain))
           = [''[White "Lc0 v0.27.0"]'', ''[Black "Lc0 v0.27.0"]'']\<close>
    by code_simp
  from process_pgn_content_rewrites [of "''2021-03-15 10:00:00''" example_lib pgn_plain 7
      "''2021-03-15''" "[''10:00:00'']"] a b c
  obtain out where
    "process_pgn_content example_lib pgn_plain ''2021-03-15 10:00:00'' 7 = Inr out"
    "filter identity_line (split_on nl out)
       = map (canonical_header (get_lc0_version example_lib ''2021-03-15 10:00:00''))
           (filter identity_line (split_on nl pgn_plain))"
    "split_on nl out ! 1 = date_header ''2021-03-15''"
    by blast
  with a b c d e show ?thesis by auto
qed

text \<open>
  A text of one game whose header block has no Date line, with the text \<^verbatim>\<open>[Date\<close> in a
  comment of its moves: no Date line is inserted.
\<close>

lemma date_text_in_comment_stops_date_header:
  \<open>process_pgn_content example_lib
      ''[Event "Test"]\<newline>[White "A"]\<newline>[Black "B"]\<newline>[Result "*"]\<newline>\<newline>1. e4 {[Date unknown]} e5 *''
      ''2021-03-15 10:00:00'' 7
    = Inr ''[Event "Test"]\<newline>[White "Lc0 v0.27.0"]\<newline>[Black "Lc0 v0.27.0"]\<newline>[Result "*"]\<newline>\<newline>1. e4 {[Date unknown]} e5 *''
   \<and> \<not> list_ex (\<lambda>l. startswith l ''[Date'')
         (split_on nl ''[Event "Test"]\<newline>[White "A"]\<newline>[Black "B"]\<newline>[Result "*"]\<newline>\<newline>1. e4 {[Date unknown]} e5 *'')
   \<and> \<not> list_ex (\<lambda>l. startswith l ''[Date'')
         (split_on nl ''[Event "Test"]\<newline>[White "Lc0 v0.27.0"]\<newline>[Black "Lc0 v0.27.0"]\<newline>[Result "*"]\<newline>\<newline>1. e4 {[Date unknown]} e5 *'')\<close>
  by code_simp

text \<open>
  The Event line of the header block, in a text of two games: the first game keeps its
  Event line and gets the date, the second gets the new Event line and no date; a line
  that starts with \<^verbatim>\<open>[WhiteElo\<close> is replaced like a White line.
\<close>

lemma event_line_kept_in_header_replaced_later:
  \<open>process_pgn_content example_lib
      ''[Event "One"]\<newline>[White "A"]\<newline>[WhiteElo "2800"]\<newline>\<newline>1. e4 *\<newline>\<newline>[Event "Two"]\<newline>[Black "B"]\<newline>\<newline>1. d4 *''
      ''2021-03-15 10:00:00'' 7
    = Inr ''[Event "One"]\<newline>[Date "2021-03-15"]\<newline>[White "Lc0 v0.27.0"]\<newline>[White "Lc0 v0.27.0"]\<newline>\<newline>1. e4 *\<newline>\<newline>[Event "Lc0 match 7"]\<newline>[Black "Lc0 v0.27.0"]\<newline>\<newline>1. d4 *''\<close>
  by code_simp

text \<open>
  Whatever the text, when its first line starts with \<^verbatim>\<open>[Event\<close> and the entry's date has a
  token, the first line of the result is the first line of the source.
\<close>

lemma leading_event_line_kept:
  assumes "py_split match_date = tok # rest"
    and "startswith text ''[Event''"
  shows "\<exists>out. process_pgn_content L text match_date mid = Inr out
           \<and> hd (split_on nl out) = hd (split_on nl text)
           \<and> startswith (hd (split_on nl out)) ''[Event''"
proof -
  let ?v = "get_lc0_version L match_date"
  let ?ls = "split_on nl text"
  let ?out = "join_on nl (process_lines ?v tok mid ?ls True ?ls)"
  have pc: "process_pgn_content L text match_date mid = Inr ?out"
    using assms(1) by (rule process_pgn_content_ok)
  have lines: "split_on nl ?out = process_lines ?v tok mid ?ls True ?ls"
    using assms(1) by (rule lines_of_processed)
  have "nl \<notin> set ''[Event''" by (simp add: nl_def)
  from startswith_first_line [OF this assms(2)] obtain l ls' where
    l: "?ls = l # ls'" "startswith l ''[Event''" by blast
  have "\<exists>more. process_lines ?v tok mid ?ls True (l # ls') = l # more"
    by (simp only: process_lines_event_in_headers [OF l(2)]) simp
  then obtain more where m: "process_lines ?v tok mid ?ls True ?ls = l # more"
    by (auto simp only: l(1))
  from lines m have o: "split_on nl ?out = l # more" by (rule trans)
  from o l(1) have hd: "hd (split_on nl ?out) = hd ?ls" by simp
  from o l(2) have sw: "startswith (hd (split_on nl ?out)) ''[Event''" by simp
  from pc hd sw show ?thesis by blast
qed

text \<open>
  Claim C3 asks that the Event header line be replaced by the tag
  \<^verbatim>\<open>[Event "Lc0 match <id>"]\<close>. In \<^verbatim>\<open>_process_pgn_content\<close> the branch that inserts the date
  comes first: while the header block lasts it appends a line that starts with \<^verbatim>\<open>[Event\<close>
  as it is and goes on to the next line, so the branch that writes the tag, further down,
  is reached only by an Event line after the first blank line. For entry 7, dated
  2021-03-15, and a text of one game with the lines \<^verbatim>\<open>[Event "Test"]\<close>, \<^verbatim>\<open>[White "A"]\<close>,
  \<^verbatim>\<open>[Black "B"]\<close>, \<^verbatim>\<open>[Result "*"]\<close>, a blank line and the moves, the result has the Date
  header and both names rewritten, its first line is still \<^verbatim>\<open>[Event "Test"]\<close>, and the line
  \<^verbatim>\<open>[Event "Lc0 match 7"]\<close> is nowhere in it.
\<close>

theorem header_event_line_is_kept:
  \<open>process_pgn_content example_lib
      ''[Event "Test"]\<newline>[White "A"]\<newline>[Black "B"]\<newline>[Result "*"]\<newline>\<newline>1. e4 e5 *''
      ''2021-03-15 10:00:00'' 7
    = Inr ''[Event "Test"]\<newline>[Date "2021-03-15"]\<newline>[White "Lc0 v0.27.0"]\<newline>[Black "Lc0 v0.27.0"]\<newline>[Result "*"]\<newline>\<newline>1. e4 e5 *''
   \<and> event_header 7 = ''[Event "Lc0 match 7"]''
   \<and> hd (split_on nl ''[Event "Test"]\<newline>[Date "2021-03-15"]\<newline>[White "Lc0 v0.27.0"]\<newline>[Black "Lc0 v0.27.0"]\<newline>[Result "*"]\<newline>\<newline>1. e4 e5 *'')
       = ''[Event "Test"]''
   \<and> event_header 7
       \<notin> set (split_on nl ''[Event "Test"]\<newline>[Date "2021-03-15"]\<newline>[White "Lc0 v0.27.0"]\<newline>[Black "Lc0 v0.27.0"]\<newline>[Result "*"]\<newline>\<newline>1. e4 e5 *'')\<close>
  by code_simp

subsection \<open>Processing a downloaded entry\<close>

text \<open>
  The rows \<^verbatim>\<open>process_all\<close> goes through, in its order: by date, and by rowid within one
  date.
\<close>

lemma process_all_rows_by_rowid:
  "map match_id (matches downloaded_db) = [1, 3, 5, 8, 9]
   \<and> map match_id (sort_key date (filter to_process (matches downloaded_db))) = [8, 1, 3, 5, 9]"
  by code_simp

lemma extract_members_single:
  "filter (\<lambda>m. endswith (name m) ''.pgn'') members = [member]
   \<Longrightarrow> extractfile member = Content b
   \<Longrightarrow> extract_members L members = [decode_utf8 L b]"
proof (induction members)
  case Nil
  then show ?case by simp
next
  case (Cons m members)
  show ?case
  proof (cases "endswith (name m) ''.pgn''")
    case True
    with Cons.prems have m: "m = member" and none: "filter (\<lambda>m. endswith (name m) ''.pgn'') members = []"
      by simp_all
    have "extract_members L members = []" using none
      by (induction members) (auto split: if_splits)
    with True m Cons.prems(2) show ?thesis by simp
  next
    case False
    with Cons show ?thesis by simp
  qed
qed

lemma organize_by_month_ok:
  "py_split date_str = tok # rest \<Longrightarrow> fromisoformat L tok = Some d \<Longrightarrow>
   organize_by_month L date_str out files =
     files(month_file d \<mapsto>
       (case files (month_file d) of None \<Rightarrow> [] | Some old \<Rightarrow> old) @ out @ [nl, nl])"
  by (simp add: organize_by_month_def)

lemma process_match_unreadable_archive:
  assumes "downloads w fname = Some file" and "endswith fname ''.tar.gz''"
    and "tar_open L file = None"
  shows "process_match L mid date_str fname w = w\<lparr>db := mark_processed (db w) mid\<rparr>"
  using assms by (simp add: process_match_def extract_from_archive_def)

text \<open>
  Claim C2 asks that an entry whose archive cannot be extracted stay unprocessed.
  \<^verbatim>\<open>_extract_from_archive\<close> catches the exception itself and returns what it has, so
  \<^verbatim>\<open>process_match\<close> goes on to \<^verbatim>\<open>mark_processed\<close>. Entry 9: the second member cannot be
  read, the first text alone is extracted, and the entry is marked processed. Entry 10:
  the file is no archive, nothing is extracted or written, and the entry is marked
  processed (the lemma above, for any such file).
\<close>

theorem failed_extraction_is_marked_processed:
  "extract_from_archive example_lib archive_broken_member = [pgn_plain]
   \<and> map processed (matches (db world9)) = [False]
   \<and> map processed (matches (db (process_match example_lib 9 ''2021-03-15 10:00:00''
                                    ''match_9.pgn.tar.gz'' world9))) = [True]
   \<and> extract_from_archive example_lib not_an_archive = []
   \<and> map processed (matches (db world10)) = [False]
   \<and> map processed (matches (db (process_match example_lib 10 ''2021-03-15''
                                    ''match_10.pgn.tar.gz'' world10))) = [True]
   \<and> aggregates (process_match example_lib 10 ''2021-03-15'' ''match_10.pgn.tar.gz'' world10)
        ''processed/2021/03/lc0_matches_2021_03.pgn'' = None"
  by code_simp

text \<open>
  An entry whose date does not parse: every text is rewritten and none is written, the
  handler of \<^verbatim>\<open>_organize_by_month\<close> logs each time, and the entry is marked processed.
\<close>

lemma process_units_unparsed_date:
  "py_split date_str = tok # rest \<Longrightarrow> fromisoformat L tok = None \<Longrightarrow>
   process_units L date_str mid texts files = (files, None)"
  by (induction texts) (auto simp: process_pgn_content_def organize_by_month_def Let_def)

lemma process_match_unparsed_date:
  assumes "downloads w fname = Some file"
    and "py_split date_str = tok # rest" and "fromisoformat L tok = None"
  shows "process_match L mid date_str fname w = w\<lparr>db := mark_processed (db w) mid\<rparr>"
  using assms(1)
  by (simp add: process_match_def Let_def process_units_unparsed_date [OF assms(2,3)])

text \<open>
  An entry with one text. Let the file of an entry be an archive with exactly one member
  named \<^verbatim>\<open>*.pgn\<close>, readable, whose text is not blank, and let the first token of the
  entry's date parse as a date \<open>d\<close>. Then \<^verbatim>\<open>process_match\<close> appends the rewritten text and
  two newlines to the aggregate file of the year and month of \<open>d\<close>, changes no other file,
  and marks the entry processed. In the appended text the lines that start with
  \<^verbatim>\<open>[White\<close> or \<^verbatim>\<open>[Black\<close>, taken by themselves, are the canonical headers, for the
  version of the entry's date, of the such lines of the source, in the same order. When
  the source starts with an Event line and the text \<^verbatim>\<open>[Date\<close> occurs nowhere in its first
  20 lines, the second line of the appended text is the Date header with the first token
  of the entry's date.
\<close>

lemma process_match_single_unit:
  assumes "downloads w fname = Some file"
    and "endswith fname ''.tar.gz''"
    and "tar_open L file = Some members"
    and "filter (\<lambda>m. endswith (name m) ''.pgn'') members = [member]"
    and "extractfile member = Content b"
    and "strip (decode_utf8 L b) \<noteq> []"
    and "py_split date_str = tok # rest"
    and "fromisoformat L tok = Some d"
  shows "\<exists>out. process_pgn_content L (decode_utf8 L b) date_str mid = Inr out
     \<and> process_match L mid date_str fname w =
         w\<lparr>aggregates := (aggregates w)(month_file d \<mapsto>
              (case aggregates w (month_file d) of None \<Rightarrow> [] | Some old \<Rightarrow> old)
              @ out @ [nl, nl]),
           db := mark_processed (db w) mid\<rparr>
     \<and> filter identity_line (split_on nl out)
         = map (canonical_header (get_lc0_version L date_str))
             (filter identity_line (split_on nl (decode_utf8 L b)))
     \<and> (startswith (decode_utf8 L b) ''[Event''
          \<and> \<not> list_ex (\<lambda>l. contains l ''[Date'') (take 20 (split_on nl (decode_utf8 L b)))
        \<longrightarrow> split_on nl out ! 1 = date_header tok)"
proof -
  let ?text = "decode_utf8 L b"
  let ?ls = "split_on nl ?text"
  let ?v = "get_lc0_version L date_str"
  let ?out = "join_on nl (process_lines ?v tok mid ?ls True ?ls)"
  have pc: "process_pgn_content L ?text date_str mid = Inr ?out"
    using assms(7) by (rule process_pgn_content_ok)
  have lines: "split_on nl ?out = process_lines ?v tok mid ?ls True ?ls"
    using assms(7) by (rule lines_of_processed)
  have ex: "extract_from_archive L file = [?text]"
    using assms(3) extract_members_single [OF assms(4,5)]
    by (simp add: extract_from_archive_def)
  have units: "process_units L date_str mid [?text] (aggregates w) =
     ((aggregates w)(month_file d \<mapsto>
              (case aggregates w (month_file d) of None \<Rightarrow> [] | Some old \<Rightarrow> old)
              @ ?out @ [nl, nl]), None)"
    using assms(6) by (simp add: pc organize_by_month_ok [OF assms(7,8)])
  have pm: "process_match L mid date_str fname w =
         w\<lparr>aggregates := (aggregates w)(month_file d \<mapsto>
              (case aggregates w (month_file d) of None \<Rightarrow> [] | Some old \<Rightarrow> old)
              @ ?out @ [nl, nl]),
           db := mark_processed (db w) mid\<rparr>"
    by (simp add: process_match_def assms(1,2) ex units del: process_units.simps)
  have idl: "filter identity_line (split_on nl ?out)
         = map (canonical_header ?v) (filter identity_line ?ls)"
    by (simp only: lines process_lines_identity)
  have dt: "split_on nl ?out ! 1 = date_header tok"
    if "startswith ?text ''[Event''"
      and "\<not> list_ex (\<lambda>l. contains l ''[Date'') (take 20 ?ls)"
  proof -
    have "nl \<notin> set ''[Event''" by (simp add: nl_def)
    from startswith_first_line [OF this that(1)] obtain l ls' where
      l: "?ls = l # ls'" "startswith l ''[Event''" by blast
    have "process_lines ?v tok mid ?ls True (l # ls')
          = l # date_header tok # process_lines ?v tok mid ?ls True ls'"
      using that(2) by (simp only: process_lines_event_in_headers [OF l(2)]) simp
    with l(1) have "process_lines ?v tok mid ?ls True ?ls ! 1 = date_header tok" by simp
    then show ?thesis by (simp only: lines)
  qed
  from pc pm idl dt show ?thesis by blast
qed

text \<open>
  Entry 42 after its download: the archive has one text of one game with no Date line.
  The text is appended to the file of March 2021 with the date inserted and both names
  rewritten to \<^verbatim>\<open>Lc0 v0.27.0\<close>, and the entry is processed.
\<close>

lemma process_match_single_unit_entry42:
  \<open>downloads world42_downloaded ''match_42.pgn.tar.gz'' = Some archive_single
   \<and> aggregates world42_downloaded ''processed/2021/03/lc0_matches_2021_03.pgn'' = None
   \<and> aggregates (process_match example_lib 42 ''2021-03-15'' ''match_42.pgn.tar.gz''
                   world42_downloaded) ''processed/2021/03/lc0_matches_2021_03.pgn''
       = Some ''[Event "Test"]\<newline>[Date "2021-03-15"]\<newline>[White "Lc0 v0.27.0"]\<newline>[Black "Lc0 v0.27.0"]\<newline>[Result "*"]\<newline>\<newline>1. e4 e5 *\<newline>\<newline>''
   \<and> map processed (matches (db (process_match example_lib 42 ''2021-03-15''
                                    ''match_42.pgn.tar.gz'' world42_downloaded))) = [True]\<close>
proof -
  let ?w = world42_downloaded
  let ?b = "encode_ascii pgn_plain"
  let ?member = "\<lparr>name = ''match_42.pgn'', extractfile = Content ?b\<rparr>"
  let ?d = "mk_date 2021 3 15"
  have h1: "downloads ?w ''match_42.pgn.tar.gz'' = Some archive_single" by code_simp
  have h2: "endswith ''match_42.pgn.tar.gz'' ''.tar.gz''" by code_simp
  have h3: "tar_open example_lib archive_single = Some [?member]" by code_simp
  have h4: "filter (\<lambda>m. endswith (name m) ''.pgn'') [?member] = [?member]" by code_simp
  have h5: "extractfile ?member = Content ?b" by simp
  have h6: "strip (decode_utf8 example_lib ?b) \<noteq> []" by code_simp
  have h7: "py_split ''2021-03-15'' = ''2021-03-15'' # []" by code_simp
  have h8: "fromisoformat example_lib ''2021-03-15'' = Some ?d" by code_simp
  from process_match_single_unit [OF h1 h2 h3 h4 h5 h6 h7 h8, of 42]
  obtain out where
    out: "process_pgn_content example_lib (decode_utf8 example_lib ?b) ''2021-03-15'' 42
            = Inr out"
    and pm: "process_match example_lib 42 ''2021-03-15'' ''match_42.pgn.tar.gz'' ?w =
         ?w\<lparr>aggregates := (aggregates ?w)(month_file ?d \<mapsto>
              (case aggregates ?w (month_file ?d) of None \<Rightarrow> [] | Some old \<Rightarrow> old)
              @ out @ [nl, nl]),
           db := mark_processed (db ?w) 42\<rparr>"
    by blast
  have e1: \<open>process_pgn_content example_lib (decode_utf8 example_lib ?b) ''2021-03-15'' 42
      = Inr ''[Event "Test"]\<newline>[Date "2021-03-15"]\<newline>[White "Lc0 v0.27.0"]\<newline>[Black "Lc0 v0.27.0"]\<newline>[Result "*"]\<newline>\<newline>1. e4 e5 *''\<close>
    by code_simp
  have e2: "month_file ?d = ''processed/2021/03/lc0_matches_2021_03.pgn''" by code_simp
  have e3: "aggregates ?w ''processed/2021/03/lc0_matches_2021_03.pgn'' = None" by code_simp
  have e4: "map processed (matches (mark_processed (db ?w) 42)) = [True]" by code_simp
  from out e1 have o: \<open>out = ''[Event "Test"]\<newline>[Date "2021-03-15"]\<newline>[White "Lc0 v0.27.0"]\<newline>[Black "Lc0 v0.27.0"]\<newline>[Result "*"]\<newline>\<newline>1. e4 e5 *''\<close>
    by simp
  show ?thesis
    unfolding pm using h1 e3 e4 by (simp add: e2 o nl_def)
qed

text \<open>
  Claim C4 asks that the appended unit have a Date field even if the source has none.
  \<^verbatim>\<open>_process_pgn_content\<close> adds the Date header "if not already present", and tests for it
  by looking for the text \<^verbatim>\<open>[Date\<close> anywhere in the first 20 lines of the unit, moves and
  comments included. Entry 43, dated 2021-03-15, has an archive with one text of one game:
  no line of it is a Date header, and the text \<^verbatim>\<open>[Date\<close> stands in a comment of its moves.
  The unit is appended to the file of March 2021 with both names rewritten and with no
  Date header, and the entry is marked processed.
\<close>

theorem date_header_missing_after_comment:
  \<open>downloads world43 ''match_43.pgn.tar.gz'' = Some archive_comment
   \<and> map (\<lambda>r. (match_id r, date r, download_status r, processed r)) (matches (db world43))
       = [(43, ''2021-03-15'', ''success'', False)]
   \<and> extract_from_archive example_lib archive_comment =
       [''[Event "Test"]\<newline>[White "A"]\<newline>[Black "B"]\<newline>[Result "*"]\<newline>\<newline>1. e4 {[Date unknown]} e5 *'']
   \<and> \<not> list_ex (\<lambda>l. startswith l ''[Date'')
         (split_on nl ''[Event "Test"]\<newline>[White "A"]\<newline>[Black "B"]\<newline>[Result "*"]\<newline>\<newline>1. e4 {[Date unknown]} e5 *'')
   \<and> aggregates world43 ''processed/2021/03/lc0_matches_2021_03.pgn'' = None
   \<and> aggregates (process_match example_lib 43 ''2021-03-15'' ''match_43.pgn.tar.gz'' world43)
        ''processed/2021/03/lc0_matches_2021_03.pgn''
       = Some ''[Event "Test"]\<newline>[White "Lc0 v0.27.0"]\<newline>[Black "Lc0 v0.27.0"]\<newline>[Result "*"]\<newline>\<newline>1. e4 {[Date unknown]} e5 *\<newline>\<newline>''
   \<and> \<not> list_ex (\<lambda>l. startswith l ''[Date'')
         (split_on nl ''[Event "Test"]\<newline>[White "Lc0 v0.27.0"]\<newline>[Black "Lc0 v0.27.0"]\<newline>[Result "*"]\<newline>\<newline>1. e4 {[Date unknown]} e5 *\<newline>\<newline>'')
   \<and> map processed (matches (db (process_match example_lib 43 ''2021-03-15''
                                    ''match_43.pgn.tar.gz'' world43))) = [True]\<close>
  by code_simp

end
